theory Spec2Isabelle
  imports Main "HOL-Library.Word" "HOL-Library.Monad_Syntax"
begin

unbundle bit_operations_syntax

section \<open>BLAKE2s (src/crypto/zinc/blake2s/blake2s.c)\<close>

text \<open>
  A shallow embedding of the generic C implementation. Arrays are lists, the hash state is
  a record that every operation takes and returns, and an access outside an array (the
  undefined behaviour of the C code) is the value \<open>None\<close>. Lengths of byte arrays are
  natural numbers: an array in memory is far shorter than \<open>2^64\<close> bytes, so the sums on
  \<open>size_t\<close> do not wrap; the one \<open>size_t\<close> subtraction that can wrap is written out in
  \<open>sub_size_t\<close>. The model is the build without \<open>DEBUG\<close> (no \<open>BUG_ON\<close>) and without an
  accelerated backend (\<open>blake2s_arch\<close> declines).
\<close>

type_synonym u8 = "8 word"
type_synonym u16 = "16 word"
type_synonym u32 = "32 word"

subsection \<open>Constants and types of the header\<close>

text \<open>
  Modelled from the spec: the header \<open>zinc/blake2s.h\<close> is not part of the sources. The spec
  gives the block size as 64 bytes, the largest output and the largest key as 32 bytes, and
  the hash state as eight chain-value words, two counter words, two finalization-flag
  words, a buffer of one block with its fill length, and the last-node flag.
\<close>

abbreviation BLAKE2S_BLOCKBYTES :: nat where "BLAKE2S_BLOCKBYTES \<equiv> 64"
abbreviation BLAKE2S_OUTBYTES :: nat where "BLAKE2S_OUTBYTES \<equiv> 32"
abbreviation BLAKE2S_KEYBYTES :: nat where "BLAKE2S_KEYBYTES \<equiv> 32"

record blake2s_state =
  h :: "u32 list"
  t :: "u32 list"
  f :: "u32 list"
  buf :: "u8 list"
  buflen :: nat
  last_node :: u8

text \<open>The array sizes that the C type fixes: \<open>u32 h[8]\<close>, \<open>u32 t[2]\<close>, \<open>u32 f[2]\<close>, \<open>u8 buf[64]\<close>.\<close>

definition state_wf :: "blake2s_state \<Rightarrow> bool" where
  "state_wf state \<longleftrightarrow>
     length (h state) = 8 \<and> length (t state) = 2 \<and> length (f state) = 2 \<and>
     length (buf state) = BLAKE2S_BLOCKBYTES"

text \<open>\<open>memset(state, 0, sizeof(*state))\<close> and \<open>memzero_explicit(state, sizeof(*state))\<close>.\<close>

definition zero_state :: blake2s_state where
  "zero_state =
     \<lparr>h = replicate 8 0, t = replicate 2 0, f = replicate 2 0,
      buf = replicate BLAKE2S_BLOCKBYTES 0, buflen = 0, last_node = 0\<rparr>"

subsection \<open>Bytes, words and memory\<close>

text \<open>\<open>get_unaligned_le32(p + off)\<close>: four bytes, least significant first.\<close>

definition get_unaligned_le32 :: "u8 list \<Rightarrow> nat \<Rightarrow> u32" where
  "get_unaligned_le32 p off =
     ucast (p ! off) OR push_bit 8 (ucast (p ! (off + 1))) OR
     push_bit 16 (ucast (p ! (off + 2))) OR push_bit 24 (ucast (p ! (off + 3)))"

text \<open>The bytes of a word stored little-endian (\<open>cpu_to_le32\<close> followed by a byte copy).\<close>

definition le32_bytes :: "u32 \<Rightarrow> u8 list" where
  "le32_bytes w = [ucast w, ucast (drop_bit 8 w), ucast (drop_bit 16 w), ucast (drop_bit 24 w)]"

definition le16_bytes :: "u16 \<Rightarrow> u8 list" where
  "le16_bytes w = [ucast w, ucast (drop_bit 8 w)]"

text \<open>\<open>ror32(word, shift)\<close> of \<open>linux/bitops.h\<close>.\<close>

definition ror32 :: "u32 \<Rightarrow> nat \<Rightarrow> u32" where
  "ror32 w shift = drop_bit (shift mod 32) w OR push_bit ((32 - shift mod 32) mod 32) w"

text \<open>\<open>a - b\<close> on \<open>size_t\<close> (64 bits), for \<open>a\<close> and \<open>b\<close> below \<open>2^64\<close>.\<close>

definition sub_size_t :: "nat \<Rightarrow> nat \<Rightarrow> nat" where
  "sub_size_t a b = nat ((int a - int b) mod 2 ^ 64)"

text \<open>
  \<open>memcpy(dst + off, src, n)\<close> and \<open>memset(dst + off, c, n)\<close> on an array \<open>dst\<close>: the new
  contents of \<open>dst\<close>, or \<open>None\<close> when the call would run past the end of \<open>dst\<close> or \<open>src\<close>.
\<close>

definition memcpy_at :: "u8 list \<Rightarrow> nat \<Rightarrow> u8 list \<Rightarrow> nat \<Rightarrow> u8 list option" where
  "memcpy_at dst off src n =
     (if off + n \<le> length dst \<and> n \<le> length src
      then Some (take off dst @ take n src @ drop (off + n) dst) else None)"

definition memset_at :: "u8 list \<Rightarrow> nat \<Rightarrow> u8 \<Rightarrow> nat \<Rightarrow> u8 list option" where
  "memset_at dst off c n =
     (if off + n \<le> length dst
      then Some (take off dst @ replicate n c @ drop (off + n) dst) else None)"

subsection \<open>Parameter block\<close>

record blake2s_param =
  digest_length :: u8
  key_length :: u8
  fanout :: u8
  depth :: u8
  leaf_length :: u32
  node_offset :: u32
  xof_length :: u16
  node_depth :: u8
  inner_length :: u8
  salt :: "u8 list"
  personal :: "u8 list"

text \<open>
  The 32 bytes of the packed struct in memory order (the multi-byte fields as a
  little-endian host stores them; every initialiser in this file leaves them zero), and
  the view of the union as eight \<open>__le32\<close> words read with \<open>le32_to_cpu\<close>.
\<close>

definition param_bytes :: "blake2s_param \<Rightarrow> u8 list" where
  "param_bytes param =
     [digest_length param, key_length param, fanout param, depth param] @
     le32_bytes (leaf_length param) @ le32_bytes (node_offset param) @
     le16_bytes (xof_length param) @ [node_depth param, inner_length param] @
     salt param @ personal param"

definition param_words :: "blake2s_param \<Rightarrow> u32 list" where
  "param_words param = map (\<lambda>i. get_unaligned_le32 (param_bytes param) (4 * i)) [0..<8]"

definition blake2s_iv :: "u32 list" where
  "blake2s_iv =
     [0x6A09E667, 0xBB67AE85, 0x3C6EF372, 0xA54FF53A,
      0x510E527F, 0x9B05688C, 0x1F83D9AB, 0x5BE0CD19]"

definition blake2s_sigma :: "nat list list" where
  "blake2s_sigma =
     [[0, 1, 2, 3, 4, 5, 6, 7, 8, 9, 10, 11, 12, 13, 14, 15],
      [14, 10, 4, 8, 9, 15, 13, 6, 1, 12, 0, 2, 11, 7, 5, 3],
      [11, 8, 12, 0, 5, 2, 15, 13, 10, 14, 3, 6, 7, 1, 9, 4],
      [7, 9, 3, 1, 13, 12, 11, 14, 2, 6, 5, 10, 4, 0, 15, 8],
      [9, 0, 5, 7, 2, 4, 10, 15, 14, 1, 11, 12, 6, 8, 3, 13],
      [2, 12, 6, 10, 0, 11, 8, 3, 4, 13, 7, 5, 15, 14, 1, 9],
      [12, 5, 1, 15, 14, 13, 4, 10, 0, 7, 6, 3, 9, 2, 8, 11],
      [13, 11, 7, 14, 12, 1, 3, 9, 5, 0, 15, 4, 8, 6, 2, 10],
      [6, 15, 14, 9, 11, 3, 0, 8, 12, 2, 13, 7, 1, 4, 10, 5],
      [10, 2, 8, 4, 7, 6, 1, 5, 15, 11, 9, 14, 3, 12, 13, 0]]"

subsection \<open>Flags, counter and initialisation\<close>

definition blake2s_set_lastblock :: "blake2s_state \<Rightarrow> blake2s_state" where
  "blake2s_set_lastblock state =
     (let state1 = (if last_node state \<noteq> 0 then state\<lparr>f := (f state)[1 := - 1]\<rparr> else state)
      in state1\<lparr>f := (f state1)[0 := - 1]\<rparr>)"

definition blake2s_increment_counter :: "blake2s_state \<Rightarrow> u32 \<Rightarrow> blake2s_state" where
  "blake2s_increment_counter state inc =
     (let state1 = state\<lparr>t := (t state)[0 := t state ! 0 + inc]\<rparr>
      in state1\<lparr>t := (t state1)[1 := t state1 ! 1 + (if t state1 ! 0 < inc then 1 else 0)]\<rparr>)"

text \<open>
  \<open>blake2s_init_param\<close> overwrites the whole state, so the model takes no state argument.
\<close>

definition blake2s_init_param :: "blake2s_param \<Rightarrow> blake2s_state" where
  "blake2s_init_param param =
     zero_state\<lparr>h := map (\<lambda>i. blake2s_iv ! i XOR param_words param ! i) [0..<8]\<rparr>"

text \<open>The initialiser \<open>{ .digest_length = outlen, .fanout = 1, .depth = 1 }\<close>: \<open>outlen\<close> is
  converted to \<open>u8\<close>, every field not named is zero.\<close>

definition blake2s_init :: "nat \<Rightarrow> blake2s_state" where
  "blake2s_init outlen =
     blake2s_init_param
       \<lparr>digest_length = of_nat outlen, key_length = 0, fanout = 1, depth = 1,
        leaf_length = 0, node_offset = 0, xof_length = 0, node_depth = 0,
        inner_length = 0, salt = replicate 8 0, personal = replicate 8 0\<rparr>"

subsection \<open>Compression\<close>

text \<open>The generic build: no accelerated backend, \<open>blake2s_arch\<close> returns \<open>false\<close>.\<close>

definition blake2s_arch :: "blake2s_state \<Rightarrow> u8 list \<Rightarrow> nat \<Rightarrow> u32 \<Rightarrow> bool" where
  "blake2s_arch state block nblocks inc = False"

text \<open>The macro \<open>G(r, i, a, b, c, d)\<close>, with \<open>a\<close>, \<open>b\<close>, \<open>c\<close>, \<open>d\<close> the indices into \<open>v\<close>.\<close>

definition G :: "nat \<Rightarrow> nat \<Rightarrow> nat \<Rightarrow> nat \<Rightarrow> nat \<Rightarrow> nat \<Rightarrow> u32 list \<Rightarrow> u32 list \<Rightarrow> u32 list" where
  "G r i a b c d m v =
     (let va = v ! a + (v ! b + m ! (blake2s_sigma ! r ! (2 * i + 0)));
          vd = ror32 (v ! d XOR va) 16;
          vc = v ! c + vd;
          vb = ror32 (v ! b XOR vc) 12;
          va = va + (vb + m ! (blake2s_sigma ! r ! (2 * i + 1)));
          vd = ror32 (vd XOR va) 8;
          vc = vc + vd;
          vb = ror32 (vb XOR vc) 7
      in v[a := va, b := vb, c := vc, d := vd])"

definition ROUND :: "nat \<Rightarrow> u32 list \<Rightarrow> u32 list \<Rightarrow> u32 list" where
  "ROUND r m v =
     (let v = G r 0 0 4 8 12 m v;
          v = G r 1 1 5 9 13 m v;
          v = G r 2 2 6 10 14 m v;
          v = G r 3 3 7 11 15 m v;
          v = G r 4 0 5 10 15 m v;
          v = G r 5 1 6 11 12 m v;
          v = G r 6 2 7 8 13 m v;
          v = G r 7 3 4 9 14 m v
      in v)"

text \<open>One iteration of the \<open>while\<close> loop of \<open>blake2s_compress\<close>, on the block that starts
  at \<open>block\<close>.\<close>

definition blake2s_compress_block :: "blake2s_state \<Rightarrow> u8 list \<Rightarrow> u32 \<Rightarrow> blake2s_state" where
  "blake2s_compress_block state block inc =
     (let state = blake2s_increment_counter state inc;
          m = map (\<lambda>i. get_unaligned_le32 block (i * 4)) [0..<16];
          v = h state @
              [blake2s_iv ! 0, blake2s_iv ! 1, blake2s_iv ! 2, blake2s_iv ! 3,
               blake2s_iv ! 4 XOR t state ! 0, blake2s_iv ! 5 XOR t state ! 1,
               blake2s_iv ! 6 XOR f state ! 0, blake2s_iv ! 7 XOR f state ! 1];
          v = fold (\<lambda>r. ROUND r m) [0..<10] v
      in state\<lparr>h := map (\<lambda>i. h state ! i XOR (v ! i XOR v ! (i + 8))) [0..<8]\<rparr>)"

text \<open>The loop: \<open>None\<close> when fewer than 64 bytes are left to read at \<open>block\<close>.\<close>

fun compress_loop :: "blake2s_state \<Rightarrow> u8 list \<Rightarrow> nat \<Rightarrow> u32 \<Rightarrow> blake2s_state option" where
  "compress_loop state block 0 inc = Some state"
| "compress_loop state block (Suc n) inc =
     (if length block < BLAKE2S_BLOCKBYTES then None
      else compress_loop (blake2s_compress_block state block inc)
             (drop BLAKE2S_BLOCKBYTES block) n inc)"

definition blake2s_compress :: "blake2s_state \<Rightarrow> u8 list \<Rightarrow> nat \<Rightarrow> u32 \<Rightarrow> blake2s_state option" where
  "blake2s_compress state block nblocks inc =
     (if blake2s_arch state block nblocks inc then Some state
      else compress_loop state block nblocks inc)"

subsection \<open>Update, final and HMAC\<close>

text \<open>Lines 214 to 218 of \<open>blake2s_update\<close>: top the buffer off and compress it.\<close>

definition update_topoff :: "blake2s_state \<Rightarrow> u8 list \<Rightarrow> nat \<Rightarrow> (blake2s_state \<times> u8 list) option" where
  "update_topoff state inp fill = do {
     b \<leftarrow> memcpy_at (buf state) (buflen state) inp fill;
     state1 \<leftarrow> blake2s_compress (state\<lparr>buf := b\<rparr>) b 1 (of_nat BLAKE2S_BLOCKBYTES);
     Some (state1\<lparr>buflen := 0\<rparr>, drop fill inp)
   }"

text \<open>Lines 220 to 229: compress all but the last block of what is left, buffer the rest.\<close>

definition update_rest :: "blake2s_state \<Rightarrow> u8 list \<Rightarrow> blake2s_state option" where
  "update_rest state inp = do {
     (state1, inp1) \<leftarrow>
       (if length inp > BLAKE2S_BLOCKBYTES then
          let nblocks = (length inp + BLAKE2S_BLOCKBYTES - 1) div BLAKE2S_BLOCKBYTES in do {
            s \<leftarrow> blake2s_compress state inp (nblocks - 1) (of_nat BLAKE2S_BLOCKBYTES);
            Some (s, drop (BLAKE2S_BLOCKBYTES * (nblocks - 1)) inp)
          }
        else Some (state, inp));
     b \<leftarrow> memcpy_at (buf state1) (buflen state1) inp1 (length inp1);
     Some (state1\<lparr>buf := b, buflen := buflen state1 + length inp1\<rparr>)
   }"

definition blake2s_update :: "blake2s_state \<Rightarrow> u8 list \<Rightarrow> blake2s_state option" where
  "blake2s_update state inp =
     (let fill = sub_size_t BLAKE2S_BLOCKBYTES (buflen state) in
      if inp = [] then Some state
      else if length inp > fill then do {
        (state1, inp1) \<leftarrow> update_topoff state inp fill;
        update_rest state1 inp1
      }
      else update_rest state inp)"

text \<open>
  \<open>blake2s_final(state, out, outlen)\<close>: the state after the call and the \<open>outlen\<close> bytes
  written to \<open>out\<close>; \<open>None\<close> when \<open>outlen\<close> bytes cannot be read from the 32 bytes of \<open>h\<close>.
\<close>

definition blake2s_final :: "blake2s_state \<Rightarrow> nat \<Rightarrow> (blake2s_state \<times> u8 list) option" where
  "blake2s_final state outlen = do {
     let state1 = blake2s_set_lastblock state;
     b \<leftarrow> memset_at (buf state1) (buflen state1) 0
            (sub_size_t BLAKE2S_BLOCKBYTES (buflen state1));
     state2 \<leftarrow> blake2s_compress (state1\<lparr>buf := b\<rparr>) b 1 (of_nat (buflen state1));
     out \<leftarrow> memcpy_at (replicate outlen 0) 0 (concat (map le32_bytes (h state2))) outlen;
     Some (zero_state, out)
   }"

text \<open>
  \<open>blake2s_init_key(state, outlen, key, keylen)\<close>, with \<open>keylen\<close> the length of \<open>key\<close>;
  \<open>None\<close> when the key does not fit the local block of 64 bytes.
\<close>

definition blake2s_init_key :: "nat \<Rightarrow> u8 list \<Rightarrow> blake2s_state option" where
  "blake2s_init_key outlen key = do {
     let state = blake2s_init_param
           \<lparr>digest_length = of_nat outlen, key_length = of_nat (length key), fanout = 1,
            depth = 1, leaf_length = 0, node_offset = 0, xof_length = 0, node_depth = 0,
            inner_length = 0, salt = replicate 8 0, personal = replicate 8 0\<rparr>;
     block \<leftarrow> memcpy_at (replicate BLAKE2S_BLOCKBYTES 0) 0 key (length key);
     blake2s_update state block
   }"

text \<open>
  \<open>blake2s_hmac(out, in, key, outlen, inlen, keylen)\<close>, with \<open>inlen\<close> and \<open>keylen\<close> the
  lengths of \<open>inp\<close> and \<open>key\<close>: the \<open>outlen\<close> bytes written to \<open>out\<close>.
\<close>

definition blake2s_hmac :: "u8 list \<Rightarrow> u8 list \<Rightarrow> nat \<Rightarrow> u8 list option" where
  "blake2s_hmac inp key outlen = do {
     x_key \<leftarrow>
       (if length key > BLAKE2S_BLOCKBYTES then do {
          state \<leftarrow> blake2s_update (blake2s_init BLAKE2S_OUTBYTES) key;
          (state, d) \<leftarrow> blake2s_final state BLAKE2S_OUTBYTES;
          memcpy_at (replicate BLAKE2S_BLOCKBYTES 0) 0 d BLAKE2S_OUTBYTES
        }
        else memcpy_at (replicate BLAKE2S_BLOCKBYTES 0) 0 key (length key));
     let x_key = map (\<lambda>b. b XOR 0x36) x_key;
     state \<leftarrow> blake2s_update (blake2s_init BLAKE2S_OUTBYTES) x_key;
     state \<leftarrow> blake2s_update state inp;
     (state, i_hash) \<leftarrow> blake2s_final state BLAKE2S_OUTBYTES;
     let x_key = map (\<lambda>b. b XOR (0x5c XOR 0x36)) x_key;
     state \<leftarrow> blake2s_update (blake2s_init BLAKE2S_OUTBYTES) x_key;
     state \<leftarrow> blake2s_update state i_hash;
     (state, i_hash) \<leftarrow> blake2s_final state BLAKE2S_OUTBYTES;
     memcpy_at (replicate outlen 0) 0 i_hash outlen
   }"

subsection \<open>Call sequences\<close>

text \<open>One \<open>blake2s_update\<close> call per chunk, in order.\<close>

fun update_chunks :: "blake2s_state \<Rightarrow> u8 list list \<Rightarrow> blake2s_state option" where
  "update_chunks state [] = Some state"
| "update_chunks state (c # cs) = do {
     state1 \<leftarrow> blake2s_update state c;
     update_chunks state1 cs
   }"

text \<open>
  \<open>blake2s_init(state, initlen)\<close>, the updates, \<open>blake2s_final(state, out, outlen)\<close>: the
  digest bytes written to \<open>out\<close>.
\<close>

definition hash_chunks :: "nat \<Rightarrow> u8 list list \<Rightarrow> nat \<Rightarrow> u8 list option" where
  "hash_chunks initlen chunks outlen = do {
     state \<leftarrow> update_chunks (blake2s_init initlen) chunks;
     (state1, out) \<leftarrow> blake2s_final state outlen;
     Some out
   }"

definition hash_oneshot :: "nat \<Rightarrow> u8 list \<Rightarrow> nat \<Rightarrow> u8 list option" where
  "hash_oneshot initlen m outlen = do {
     state \<leftarrow> blake2s_update (blake2s_init initlen) m;
     (state1, out) \<leftarrow> blake2s_final state outlen;
     Some out
   }"

subsection \<open>The stream view of a state\<close>

text \<open>
  Used in the proofs only. A state stands for the chain state (\<open>core\<close>: the state without
  its buffer) and the bytes still buffered (\<open>pending\<close>); \<open>absorb\<close> compresses every full
  block of a byte sequence but the last one and returns the bytes that stay buffered.
\<close>

definition pending :: "blake2s_state \<Rightarrow> u8 list" where
  "pending state = take (buflen state) (buf state)"

definition core :: "blake2s_state \<Rightarrow> blake2s_state" where
  "core state = state\<lparr>buf := [], buflen := 0\<rparr>"

function absorb :: "blake2s_state \<Rightarrow> u8 list \<Rightarrow> blake2s_state \<times> u8 list" where
  "absorb state d =
     (if length d \<le> BLAKE2S_BLOCKBYTES then (state, d)
      else absorb (blake2s_compress_block state d 64)
             (drop BLAKE2S_BLOCKBYTES d))"
  by pat_completeness auto
termination
  by (relation "measure (\<lambda>(state, d). length d)") auto

declare absorb.simps [simp del]

subsection \<open>HMAC as the specification words it\<close>

text \<open>
  Follows the specification, not the code: with \<open>H\<close> the unkeyed hash of 32 bytes and \<open>K'\<close>
  the key padded with zeros to 64 bytes (the hash of the key, padded, when the key is longer
  than 64 bytes), the first \<open>outlen\<close> bytes of
  \<open>H ((K' XOR 0x5c...) || H ((K' XOR 0x36...) || message))\<close>.
\<close>

definition hmac_spec :: "u8 list \<Rightarrow> u8 list \<Rightarrow> nat \<Rightarrow> u8 list option" where
  "hmac_spec msg key outlen = do {
     k' \<leftarrow>
       (if length key \<le> BLAKE2S_BLOCKBYTES
        then Some (key @ replicate (BLAKE2S_BLOCKBYTES - length key) 0)
        else do {
          d \<leftarrow> hash_oneshot BLAKE2S_OUTBYTES key BLAKE2S_OUTBYTES;
          Some (d @ replicate (BLAKE2S_BLOCKBYTES - length d) 0)
        });
     inner \<leftarrow> hash_oneshot BLAKE2S_OUTBYTES (map (\<lambda>b. b XOR 0x36) k' @ msg) BLAKE2S_OUTBYTES;
     outer \<leftarrow> hash_oneshot BLAKE2S_OUTBYTES (map (\<lambda>b. b XOR 0x5c) k' @ inner) BLAKE2S_OUTBYTES;
     Some (take outlen outer)
   }"

subsection \<open>The steps of one compression\<close>

text \<open>
  Used to evaluate \<open>blake2s_compress_block\<close> on a concrete block one round at a time: the
  message words, the working vector before the rounds, and the new chain value.
\<close>

definition message_words :: "u8 list \<Rightarrow> u32 list" where
  "message_words block = map (\<lambda>i. get_unaligned_le32 block (i * 4)) [0..<16]"

definition work_vector :: "blake2s_state \<Rightarrow> u32 list" where
  "work_vector state =
     h state @
     [blake2s_iv ! 0, blake2s_iv ! 1, blake2s_iv ! 2, blake2s_iv ! 3,
      blake2s_iv ! 4 XOR t state ! 0, blake2s_iv ! 5 XOR t state ! 1,
      blake2s_iv ! 6 XOR f state ! 0, blake2s_iv ! 7 XOR f state ! 1]"

definition chain_update :: "u32 list \<Rightarrow> u32 list \<Rightarrow> u32 list" where
  "chain_update hs v = map (\<lambda>i. hs ! i XOR (v ! i XOR v ! (i + 8))) [0..<8]"

section \<open>Properties\<close>

subsection \<open>Flags and counter\<close>

lemma length2_cases: "length xs = 2 \<Longrightarrow> \<exists>a b. xs = [a, b]"
  by (cases xs; cases "tl xs"; auto)

text \<open>
  C8: the last-block marking sets \<open>f[0]\<close> to all-ones, sets \<open>f[1]\<close> to all-ones when
  \<open>last_node\<close> is set and leaves it as it is otherwise, and changes no other field.
\<close>

theorem set_lastblock_flags:
  "length (f s) = 2 \<Longrightarrow>
   blake2s_set_lastblock s = s\<lparr>f := [- 1, if last_node s \<noteq> 0 then - 1 else f s ! 1]\<rparr>"
  by (auto simp: blake2s_set_lastblock_def Let_def dest!: length2_cases)

theorem set_lastblock_flags_witness:
  "blake2s_set_lastblock (zero_state\<lparr>last_node := 1\<rparr>) = zero_state\<lparr>last_node := 1, f := [- 1, - 1]\<rparr> \<and>
   blake2s_set_lastblock zero_state = zero_state\<lparr>f := [- 1, 0]\<rparr>"
  using set_lastblock_flags [of "zero_state\<lparr>last_node := 1\<rparr>"] set_lastblock_flags [of zero_state]
  by (simp add: zero_state_def numeral_2_eq_2)

lemma u32_add_wraps: "(a + b < b) = (2 ^ 32 \<le> unat a + unat b)" for a b :: u32
proof -
  have "(b \<le> b + a) = (unat b + unat a < 2 ^ 32)"
    using no_olen_add_nat [of b a] by simp
  then show ?thesis by (simp add: add.commute not_le [symmetric] not_less)
qed

lemma counter_value:
  fixes t0 t1 inc :: u32
  shows "unat (t1 + (if t0 + inc < inc then 1 else 0)) * 2 ^ 32 + unat (t0 + inc) =
         (unat t1 * 2 ^ 32 + unat t0 + unat inc) mod 2 ^ 64"
proof -
  have A: "unat t0 < 2 ^ 32" "unat t1 < 2 ^ 32" "unat inc < 2 ^ 32"
    using unsigned_less [of t0, where 'a = nat] unsigned_less [of t1, where 'a = nat]
      unsigned_less [of inc, where 'a = nat] by simp_all
  show ?thesis
  proof (cases "2 ^ 32 \<le> unat t0 + unat inc")
    case False
    then have "unat (t0 + inc) = unat t0 + unat inc"
      by (simp add: unat_word_ariths)
    with False A show ?thesis
      by (simp add: u32_add_wraps)
  next
    case True
    then have lo: "unat (t0 + inc) = unat t0 + unat inc - 2 ^ 32"
      using A by (simp add: unat_word_ariths mod_if)
    show ?thesis
    proof (cases "unat t1 + 1 < 2 ^ 32")
      case True
      then have "unat (t1 + 1) = unat t1 + 1"
        by (simp add: unat_word_ariths)
      with \<open>2 ^ 32 \<le> unat t0 + unat inc\<close> lo A True show ?thesis
        by (simp add: u32_add_wraps)
    next
      case False
      with A have e: "unat t1 = 2 ^ 32 - 1" by simp
      then have "unat (t1 + 1) = 0"
        by (simp add: unat_word_ariths)
      with \<open>2 ^ 32 \<le> unat t0 + unat inc\<close> lo A e show ?thesis
        by (simp add: u32_add_wraps mod_if)
    qed
  qed
qed

text \<open>
  C9: \<open>blake2s_increment_counter\<close> adds \<open>inc\<close> to the 64-bit value \<open>t[1] * 2^32 + t[0]\<close>
  modulo \<open>2^64\<close>: the low word wraps, the high word gains one exactly when the low word
  wrapped, and no other field changes.
\<close>

theorem increment_counter_64:
  "length (t s) = 2 \<Longrightarrow>
   (let s' = blake2s_increment_counter s inc in
      unat (t s' ! 1) * 2 ^ 32 + unat (t s' ! 0) =
        (unat (t s ! 1) * 2 ^ 32 + unat (t s ! 0) + unat inc) mod 2 ^ 64 \<and>
      t s' ! 0 = t s ! 0 + inc \<and>
      t s' ! 1 = (if 2 ^ 32 \<le> unat (t s ! 0) + unat inc then t s ! 1 + 1 else t s ! 1) \<and>
      s' = s\<lparr>t := [t s' ! 0, t s' ! 1]\<rparr>)"
proof -
  assume "length (t s) = 2"
  then obtain a b where ab: "t s = [a, b]"
    using length2_cases by blast
  have s': "blake2s_increment_counter s inc =
      s\<lparr>t := [a + inc, b + (if a + inc < inc then 1 else 0)]\<rparr>"
    by (simp add: blake2s_increment_counter_def Let_def ab)
  have v: "unat (b + (if a + inc < inc then 1 else 0)) * 2 ^ 32 + unat (a + inc) =
      (unat b * 2 ^ 32 + unat a + unat inc) mod 2 ^ 64"
    by (rule counter_value)
  have c: "b + (if a + inc < inc then 1 else 0) =
      (if 2 ^ 32 \<le> unat a + unat inc then b + 1 else b)"
    by (simp only: u32_add_wraps) simp
  show ?thesis
    unfolding Let_def s' using v c by (simp add: ab)
qed

theorem increment_counter_64_witness:
  "t (blake2s_increment_counter (zero_state\<lparr>t := [0xFFFFFFC1, 5]\<rparr>) 64) = [1, 6]"
  using increment_counter_64 [of "zero_state\<lparr>t := [0xFFFFFFC1, 5]\<rparr>" 64]
  by (simp add: zero_state_def Let_def blake2s_increment_counter_def)

subsection \<open>Initialisation\<close>

lemma upt8: "[0..<8] = [0, 1, 2, 3, 4, 5, 6, 7]"
  by code_simp

lemma ucast_u8_of_nat: "n < 256 \<Longrightarrow> (ucast (of_nat n :: u8) :: u32) = of_nat n"
  by (simp add: unsigned_of_nat take_bit_nat_eq_self)

lemma le32_bytes_0: "le32_bytes 0 = [0, 0, 0, 0]"
  by (simp add: le32_bytes_def)

lemma le16_bytes_0: "le16_bytes 0 = [0, 0]"
  by (simp add: le16_bytes_def)

lemma replicate8: "replicate 8 x = [x, x, x, x, x, x, x, x]"
  by (simp add: numeral_eq_Suc)

lemma param_words_init:
  "n < 256 \<Longrightarrow> k < 256 \<Longrightarrow>
   param_words \<lparr>digest_length = of_nat n, key_length = of_nat k, fanout = 1, depth = 1,
        leaf_length = 0, node_offset = 0, xof_length = 0, node_depth = 0,
        inner_length = 0, salt = replicate 8 0, personal = replicate 8 0\<rparr> =
   [of_nat n OR push_bit 8 (of_nat k) OR 0x01010000, 0, 0, 0, 0, 0, 0, 0]"
  by (simp add: param_words_def upt8 param_bytes_def le32_bytes_0 le16_bytes_0 replicate8
      get_unaligned_le32_def ucast_u8_of_nat or.assoc)

text \<open>
  C6: for an output length from 1 to 32, \<open>blake2s_init\<close> leaves \<open>h[0] = IV[0] XOR (outlen OR
  0x01010000)\<close> (digest length, key length 0, fanout 1, depth 1 packed little-endian),
  \<open>h[i] = IV[i]\<close> for the other words, and counter, flags, buffer and fill length zero.
\<close>

theorem init_chain_value:
  "1 \<le> outlen \<Longrightarrow> outlen \<le> BLAKE2S_OUTBYTES \<Longrightarrow>
   blake2s_init outlen =
     \<lparr>h = [blake2s_iv ! 0 XOR (of_nat outlen OR 0x01010000), blake2s_iv ! 1, blake2s_iv ! 2,
           blake2s_iv ! 3, blake2s_iv ! 4, blake2s_iv ! 5, blake2s_iv ! 6, blake2s_iv ! 7],
      t = [0, 0], f = [0, 0], buf = replicate BLAKE2S_BLOCKBYTES 0, buflen = 0, last_node = 0\<rparr>"
  using param_words_init [of outlen 0]
  by (simp add: blake2s_init_def blake2s_init_param_def zero_state_def upt8 numeral_2_eq_2)

theorem init_chain_value_witness:
  "blake2s_init 32 =
     \<lparr>h = [0x6B08E647, 0xBB67AE85, 0x3C6EF372, 0xA54FF53A,
           0x510E527F, 0x9B05688C, 0x1F83D9AB, 0x5BE0CD19],
      t = [0, 0], f = [0, 0], buf = replicate BLAKE2S_BLOCKBYTES 0, buflen = 0, last_node = 0\<rparr>"
  using init_chain_value [of 32] by (simp add: blake2s_iv_def)

subsection \<open>Compression and finalisation\<close>

lemma compress_block_fields [simp]:
  "buf (blake2s_compress_block s blk inc) = buf s"
  "buflen (blake2s_compress_block s blk inc) = buflen s"
  "last_node (blake2s_compress_block s blk inc) = last_node s"
  "f (blake2s_compress_block s blk inc) = f s"
  "length (h (blake2s_compress_block s blk inc)) = 8"
  "length (t (blake2s_compress_block s blk inc)) = length (t s)"
  by (simp_all add: blake2s_compress_block_def blake2s_increment_counter_def Let_def)

lemma compress_block_wf [simp]:
  "state_wf s \<Longrightarrow> state_wf (blake2s_compress_block s blk inc)"
  by (simp add: state_wf_def)

lemma compress_block_buf_update:
  "blake2s_compress_block (s\<lparr>buf := b\<rparr>) blk inc = (blake2s_compress_block s blk inc)\<lparr>buf := b\<rparr>"
  "blake2s_compress_block (s\<lparr>buflen := n\<rparr>) blk inc = (blake2s_compress_block s blk inc)\<lparr>buflen := n\<rparr>"
  by (simp_all add: blake2s_compress_block_def blake2s_increment_counter_def Let_def)

lemma get_le32_append:
  "off + 3 < length b \<Longrightarrow> get_unaligned_le32 (b @ r) off = get_unaligned_le32 b off"
  by (simp add: get_unaligned_le32_def nth_append)

lemma compress_block_append:
  assumes "length b = BLAKE2S_BLOCKBYTES"
  shows "blake2s_compress_block s (b @ r) inc = blake2s_compress_block s b inc"
proof -
  have m: "map (\<lambda>i. get_unaligned_le32 (b @ r) (i * 4)) [0..<16] =
        map (\<lambda>i. get_unaligned_le32 b (i * 4)) [0..<16]"
    using assms by (intro map_cong refl get_le32_append) auto
  show ?thesis
    unfolding blake2s_compress_block_def m by (rule refl)
qed

lemma compress_block_take:
  "BLAKE2S_BLOCKBYTES \<le> length d \<Longrightarrow>
   blake2s_compress_block s (take BLAKE2S_BLOCKBYTES d) inc = blake2s_compress_block s d inc"
  using compress_block_append [of "take 64 d" s "drop 64 d" inc] by simp

lemma compress_one:
  "BLAKE2S_BLOCKBYTES \<le> length blk \<Longrightarrow>
   blake2s_compress s blk (Suc 0) inc = Some (blake2s_compress_block s blk inc)"
  by (simp add: blake2s_compress_def blake2s_arch_def)

lemma sub_size_t_le: "b \<le> a \<Longrightarrow> a < 2 ^ 64 \<Longrightarrow> sub_size_t a b = a - b"
  by (simp add: sub_size_t_def nat_diff_distrib' of_nat_diff flip: of_nat_diff)

lemma set_lastblock_fields [simp]:
  "buf (blake2s_set_lastblock s) = buf s"
  "buflen (blake2s_set_lastblock s) = buflen s"
  "last_node (blake2s_set_lastblock s) = last_node s"
  "h (blake2s_set_lastblock s) = h s"
  "t (blake2s_set_lastblock s) = t s"
  "length (f (blake2s_set_lastblock s)) = length (f s)"
  by (simp_all add: blake2s_set_lastblock_def Let_def)

lemma length_le32_concat: "length (concat (map le32_bytes ws)) = 4 * length ws"
  by (induction ws) (simp_all add: le32_bytes_def)

text \<open>The closed form of \<open>blake2s_final\<close> on a state whose fill length is in range.\<close>

lemma final_closed:
  assumes "state_wf s" "buflen s \<le> BLAKE2S_BLOCKBYTES" "outlen \<le> BLAKE2S_OUTBYTES"
  shows "blake2s_final s outlen =
     Some (zero_state,
       take outlen (concat (map le32_bytes (h (blake2s_compress_block (blake2s_set_lastblock s)
         (take (buflen s) (buf s) @ replicate (BLAKE2S_BLOCKBYTES - buflen s) 0)
         (of_nat (buflen s)))))))"
proof -
  have len: "length (buf s) = 64"
    using assms(1) by (simp add: state_wf_def)
  have fill: "sub_size_t 64 (buflen s) = 64 - buflen s"
    using assms(2) by (simp add: sub_size_t_le)
  have pad: "memset_at (buf s) (buflen s) 0 (64 - buflen s) =
      Some (take (buflen s) (buf s) @ replicate (64 - buflen s) 0)"
    using assms(2) len by (simp add: memset_at_def)
  show ?thesis
    using assms(2,3) len
    by (simp add: blake2s_final_def fill pad compress_one compress_block_buf_update
        memcpy_at_def length_le32_concat)
qed

subsection \<open>Absorbing a byte stream\<close>

lemma core_compress_block:
  "core (blake2s_compress_block s blk inc) = blake2s_compress_block (core s) blk inc"
  by (simp add: core_def compress_block_buf_update)

lemma core_fields [simp]:
  "h (core s) = h s" "t (core s) = t s" "f (core s) = f s" "last_node (core s) = last_node s"
  "buf (core s) = []" "buflen (core s) = 0"
  by (simp_all add: core_def)

lemma core_idem [simp]: "core (s\<lparr>buf := b\<rparr>) = core s" "core (s\<lparr>buflen := n\<rparr>) = core s"
  "core (s\<lparr>buf := b, buflen := n\<rparr>) = core s"
  by (simp_all add: core_def)

lemma compress_block_prefix:
  assumes "BLAKE2S_BLOCKBYTES \<le> length d"
  shows "blake2s_compress_block s (d @ r) inc = blake2s_compress_block s d inc"
  using compress_block_take [of "d @ r" s inc] compress_block_take [of d s inc] assms
  by simp

lemma absorb_short: "length d \<le> BLAKE2S_BLOCKBYTES \<Longrightarrow> absorb s d = (s, d)"
  by (simp add: absorb.simps)

lemma absorb_long:
  "BLAKE2S_BLOCKBYTES < length d \<Longrightarrow>
   absorb s d = absorb (blake2s_compress_block s d 64) (drop BLAKE2S_BLOCKBYTES d)"
  by (subst absorb.simps) simp

lemma absorb_snd_le: "length (snd (absorb s d)) \<le> BLAKE2S_BLOCKBYTES"
proof (induction s d rule: absorb.induct)
  case (1 s d)
  then show ?case
    by (cases "length d \<le> 64") (simp_all add: absorb_short absorb_long)
qed

lemma absorb_append:
  "absorb s (d1 @ d2) = absorb (fst (absorb s d1)) (snd (absorb s d1) @ d2)"
proof (induction s d1 rule: absorb.induct)
  case (1 s d)
  show ?case
  proof (cases "length d \<le> 64")
    case True
    then show ?thesis by (simp add: absorb_short)
  next
    case False
    then have long: "64 < length d" "64 < length (d @ d2)" "64 \<le> length d"
      by simp_all
    have "absorb s (d @ d2) = absorb (blake2s_compress_block s d 64) (drop 64 d @ d2)"
      using long by (simp add: absorb_long [OF long(2)] compress_block_prefix)
    also have "\<dots> = absorb (fst (absorb (blake2s_compress_block s d 64) (drop 64 d)))
        (snd (absorb (blake2s_compress_block s d 64) (drop 64 d)) @ d2)"
      using "1.IH" False by simp
    finally show ?thesis
      by (simp add: absorb_long [OF long(1)])
  qed
qed

lemma nblocks_short:
  "n \<le> 64 \<Longrightarrow> (n + 64 - 1) div 64 - 1 = (0::nat)"
  by (cases "n = 0") (simp_all add: div_eq_0_iff Suc_le_eq less_Suc_eq_le)

lemma nblocks_step:
  assumes "64 < (n::nat)"
  shows "(n + 64 - 1) div 64 - 1 = Suc ((n - 64 + 64 - 1) div 64 - 1)"
proof -
  obtain k where k: "n = 64 + Suc k"
    using assms by (metis add_Suc_right less_iff_Suc_add)
  have "(64 + Suc k + 64 - 1) div 64 = Suc ((Suc k + 63) div 64)"
    by simp
  moreover have "0 < (Suc k + 63) div 64"
    by (simp add: div_greater_zero_iff)
  ultimately show ?thesis
    unfolding k by simp
qed

lemma compress_loop_absorb:
  "\<exists>s'. compress_loop s d ((length d + BLAKE2S_BLOCKBYTES - 1) div BLAKE2S_BLOCKBYTES - 1) 64 = Some s' \<and>
        core s' = fst (absorb (core s) d) \<and> buf s' = buf s \<and> buflen s' = buflen s \<and>
        (state_wf s \<longrightarrow> state_wf s') \<and>
        snd (absorb (core s) d) =
          drop (BLAKE2S_BLOCKBYTES * ((length d + BLAKE2S_BLOCKBYTES - 1) div BLAKE2S_BLOCKBYTES - 1)) d"
proof (induction s d rule: absorb.induct)
  case (1 s d)
  show ?case
  proof (cases "length d \<le> 64")
    case True
    then show ?thesis
      by (simp add: nblocks_short [simplified] absorb_short)
  next
    case False
    then have long: "64 < length d" by simp
    define n' where "n' = (length (drop 64 d) + 64 - 1) div 64 - 1"
    have n: "(length d + 64 - 1) div 64 - 1 = Suc n'"
      using nblocks_step [OF long] by (simp add: n'_def)
    from "1.IH" [OF False] obtain s' where s':
      "compress_loop (blake2s_compress_block s d 64) (drop 64 d) n' 64 = Some s'"
      "core s' = fst (absorb (core (blake2s_compress_block s d 64)) (drop 64 d))"
      "buf s' = buf (blake2s_compress_block s d 64)"
      "buflen s' = buflen (blake2s_compress_block s d 64)"
      "state_wf (blake2s_compress_block s d 64) \<longrightarrow> state_wf s'"
      "snd (absorb (core (blake2s_compress_block s d 64)) (drop 64 d)) = drop (64 * n') (drop 64 d)"
      unfolding n'_def by blast
    have ab: "absorb (core s) d = absorb (core (blake2s_compress_block s d 64)) (drop 64 d)"
      by (simp add: absorb_long [OF long] core_compress_block)
    have loop: "compress_loop s d (Suc n') 64 = Some s'"
      using long s'(1) by simp
    have dr: "drop (64 * n') (drop 64 d) = drop (64 * Suc n') d"
      by (simp add: add.commute)
    have wf: "state_wf s \<longrightarrow> state_wf s'"
      using s'(5) by simp
    show ?thesis
      unfolding n ab
      using loop s'(2) s'(3) s'(4) wf s'(6) [unfolded dr] by simp
  qed
qed

lemma update_rest_short:
  assumes "state_wf s" "buflen s + length inp \<le> BLAKE2S_BLOCKBYTES"
  shows "update_rest s inp =
     Some (s\<lparr>buf := take (buflen s) (buf s) @ inp @ drop (buflen s + length inp) (buf s),
             buflen := buflen s + length inp\<rparr>)"
proof -
  have "length (buf s) = 64" "length inp \<le> 64"
    using assms by (simp_all add: state_wf_def)
  then show ?thesis
    using assms(2) by (simp add: update_rest_def memcpy_at_def)
qed

lemma update_rest_stream:
  assumes "state_wf s" "buflen s = 0"
  shows "\<exists>s'. update_rest s inp = Some s' \<and> state_wf s' \<and>
     core s' = fst (absorb (core s) inp) \<and> pending s' = snd (absorb (core s) inp) \<and>
     buflen s' = length (snd (absorb (core s) inp))"
proof -
  define n where "n = (length inp + 64 - 1) div 64 - 1"
  obtain s1 where s1: "compress_loop s inp n 64 = Some s1" "core s1 = fst (absorb (core s) inp)"
    "buf s1 = buf s" "buflen s1 = buflen s" "state_wf s1"
    "snd (absorb (core s) inp) = drop (64 * n) inp"
    using compress_loop_absorb [of s inp] assms(1) unfolding n_def by blast
  define r where "r = snd (absorb (core s) inp)"
  have r: "length r \<le> 64" "drop (64 * n) inp = r"
    using absorb_snd_le [of "core s" inp] s1(6) by (simp_all add: r_def)
  have len: "length (buf s1) = 64" "buflen s1 = 0"
    using s1(5) s1(4) assms(2) by (simp_all add: state_wf_def)
  have first: "(if 64 < length inp
       then let nblocks = (length inp + 64 - 1) div 64
            in blake2s_compress s inp (nblocks - 1) (of_nat 64) \<bind>
               (\<lambda>s. Some (s, drop (64 * (nblocks - 1)) inp))
       else Some (s, inp)) = Some (s1, r)"
  proof (cases "64 < length inp")
    case True
    then show ?thesis
      using s1(1) r(2) by (simp add: Let_def blake2s_compress_def blake2s_arch_def n_def)
  next
    case False
    then have "n = 0"
      using nblocks_short [of "length inp"] by (simp add: n_def)
    with False s1(1) r(2) show ?thesis by simp
  qed
  have "update_rest s inp = Some (s1\<lparr>buf := r @ drop (length r) (buf s1), buflen := length r\<rparr>)"
    unfolding update_rest_def first using r(1) len by (simp add: memcpy_at_def)
  moreover have "state_wf (s1\<lparr>buf := r @ drop (length r) (buf s1), buflen := length r\<rparr>)"
    using s1(5) r(1) by (simp add: state_wf_def)
  ultimately show ?thesis
    using s1(2) by (simp add: pending_def r_def [symmetric])
qed

lemma pending_length: "state_wf s \<Longrightarrow> buflen s \<le> BLAKE2S_BLOCKBYTES \<Longrightarrow> length (pending s) = buflen s"
  by (simp add: pending_def state_wf_def)

text \<open>
  The stream view of \<open>blake2s_update\<close>: the bytes still buffered followed by the input are
  absorbed, every full block but the last one compressed, the rest buffered.
\<close>

lemma update_stream:
  assumes "state_wf s" "buflen s \<le> BLAKE2S_BLOCKBYTES"
  shows "\<exists>s'. blake2s_update s inp = Some s' \<and> state_wf s' \<and> buflen s' \<le> BLAKE2S_BLOCKBYTES \<and>
     core s' = fst (absorb (core s) (pending s @ inp)) \<and>
     pending s' = snd (absorb (core s) (pending s @ inp)) \<and>
     buflen s' = length (snd (absorb (core s) (pending s @ inp)))"
proof -
  have len: "length (buf s) = 64"
    using assms(1) by (simp add: state_wf_def)
  have fill: "sub_size_t 64 (buflen s) = 64 - buflen s"
    using assms(2) by (simp add: sub_size_t_le)
  have pl: "length (pending s) = buflen s"
    using assms by (rule pending_length)
  consider (empty) "inp = []" | (fits) "inp \<noteq> []" "length inp \<le> 64 - buflen s"
    | (over) "64 - buflen s < length inp"
    by fastforce
  then show ?thesis
  proof cases
    case empty
    then show ?thesis
      using assms pl by (simp add: blake2s_update_def absorb_short)
  next
    case fits
    then have le: "buflen s + length inp \<le> 64" using assms(2) by simp
    have short: "length (pending s @ inp) \<le> 64" using le pl by simp
    define s' where "s' = s\<lparr>buf := take (buflen s) (buf s) @ inp @ drop (buflen s + length inp) (buf s),
        buflen := buflen s + length inp\<rparr>"
    have "blake2s_update s inp = update_rest s inp"
      using fits by (simp add: blake2s_update_def fill Let_def)
    then have u: "blake2s_update s inp = Some s'"
      by (simp add: update_rest_short [OF assms(1) le] s'_def)
    have p: "pending s' = pending s @ inp"
      using le len by (simp add: pending_def s'_def)
    have wf: "state_wf s'" "buflen s' \<le> 64" "core s' = core s"
      "buflen s' = length (pending s @ inp)"
      using assms(1) le len pl by (simp_all add: s'_def state_wf_def)
    show ?thesis
      unfolding absorb_short [OF short] using u p wf by simp
  next
    case over
    define b where "b = pending s @ take (64 - buflen s) inp"
    define s1 where "s1 = (blake2s_compress_block (s\<lparr>buf := b\<rparr>) b 64)\<lparr>buflen := 0\<rparr>"
    define inp1 where "inp1 = drop (64 - buflen s) inp"
    have blen: "length b = 64"
      using over assms(2) pl by (simp add: b_def)
    have split: "pending s @ inp = b @ inp1"
      by (simp add: b_def inp1_def)
    have cp: "memcpy_at (buf s) (buflen s) inp (64 - buflen s) = Some b"
      using over assms(2) len by (simp add: memcpy_at_def b_def pending_def)
    have top: "update_topoff s inp (64 - buflen s) = Some (s1, inp1)"
      using blen by (simp add: update_topoff_def cp compress_one s1_def inp1_def)
    have upd: "blake2s_update s inp = update_rest s1 inp1"
      using over by (auto simp: blake2s_update_def fill Let_def top)
    have wf1: "state_wf s1" "buflen s1 = 0"
      using assms(1) blen by (simp_all add: s1_def state_wf_def)
    have core1: "core s1 = blake2s_compress_block (core s) b 64"
      by (simp add: s1_def core_compress_block)
    have long: "64 < length (pending s @ inp)"
      using over pl by simp
    have ab: "absorb (core s) (pending s @ inp) = absorb (core s1) inp1"
      unfolding absorb_long [OF long] core1 unfolding split
      using blen by (simp add: compress_block_append)
    from update_rest_stream [OF wf1, of inp1] obtain s' where s':
      "update_rest s1 inp1 = Some s'" "state_wf s'" "core s' = fst (absorb (core s1) inp1)"
      "pending s' = snd (absorb (core s1) inp1)" "buflen s' = length (snd (absorb (core s1) inp1))"
      by blast
    show ?thesis
      unfolding upd ab using s' absorb_snd_le [of "core s1" inp1] by simp
  qed
qed

lemma init_wf: "state_wf (blake2s_init_param p)" "buflen (blake2s_init_param p) = 0"
  by (simp_all add: blake2s_init_param_def zero_state_def state_wf_def)

lemma init_wf': "state_wf (blake2s_init n)" "buflen (blake2s_init n) = 0"
  by (simp_all add: blake2s_init_def init_wf)

lemma update_chunks_stream:
  assumes "state_wf s" "buflen s \<le> BLAKE2S_BLOCKBYTES"
  shows "\<exists>s'. update_chunks s cs = Some s' \<and> state_wf s' \<and> buflen s' \<le> BLAKE2S_BLOCKBYTES \<and>
     core s' = fst (absorb (core s) (pending s @ concat cs)) \<and>
     pending s' = snd (absorb (core s) (pending s @ concat cs)) \<and>
     buflen s' = length (snd (absorb (core s) (pending s @ concat cs)))"
  using assms
proof (induction cs arbitrary: s)
  case Nil
  then show ?case
    by (simp add: absorb_short pending_length)
next
  case (Cons c cs)
  from update_stream [OF Cons.prems, of c] obtain s1 where s1:
    "blake2s_update s c = Some s1" "state_wf s1" "buflen s1 \<le> 64"
    "core s1 = fst (absorb (core s) (pending s @ c))"
    "pending s1 = snd (absorb (core s) (pending s @ c))"
    by blast
  have "absorb (core s) (pending s @ concat (c # cs)) = absorb (core s1) (pending s1 @ concat cs)"
    using absorb_append [of "core s" "pending s @ c" "concat cs"] s1(4,5) by simp
  then show ?case
    using Cons.IH [OF s1(2,3)] s1(1) by simp
qed

lemma core_set_lastblock: "core (blake2s_set_lastblock s) = blake2s_set_lastblock (core s)"
  by (simp add: core_def blake2s_set_lastblock_def Let_def)

lemma h_compress_block_core:
  "h (blake2s_compress_block s blk inc) = h (blake2s_compress_block (core s) blk inc)"
  using core_compress_block [of s blk inc, symmetric] core_fields(1) by metis

lemma final_stream:
  assumes "state_wf s" "buflen s \<le> BLAKE2S_BLOCKBYTES" "outlen \<le> BLAKE2S_OUTBYTES"
  shows "blake2s_final s outlen =
     Some (zero_state,
       take outlen (concat (map le32_bytes (h (blake2s_compress_block (blake2s_set_lastblock (core s))
         (pending s @ replicate (BLAKE2S_BLOCKBYTES - length (pending s)) 0)
         (of_nat (length (pending s))))))))"
  using h_compress_block_core [of "blake2s_set_lastblock s"]
  by (simp add: final_closed [OF assms] pending_length [OF assms(1,2)] core_set_lastblock)
    (simp add: pending_def)

lemma final_cong:
  assumes "state_wf s" "buflen s \<le> BLAKE2S_BLOCKBYTES" "state_wf s'" "buflen s' \<le> BLAKE2S_BLOCKBYTES"
    and "core s = core s'" "pending s = pending s'" "outlen \<le> BLAKE2S_OUTBYTES"
  shows "blake2s_final s outlen = blake2s_final s' outlen"
  by (simp add: final_stream assms)

lemma hash_chunks_concat:
  assumes "outlen \<le> BLAKE2S_OUTBYTES"
  shows "hash_chunks initlen chunks outlen = hash_oneshot initlen (concat chunks) outlen"
    and "hash_oneshot initlen m outlen \<noteq> None"
proof -
  let ?s0 = "blake2s_init initlen"
  have wf0: "state_wf ?s0" "buflen ?s0 \<le> 64"
    by (simp_all add: init_wf')
  from update_chunks_stream [OF wf0, of chunks] obtain s1 where s1:
    "update_chunks ?s0 chunks = Some s1" "state_wf s1" "buflen s1 \<le> 64"
    "core s1 = fst (absorb (core ?s0) (pending ?s0 @ concat chunks))"
    "pending s1 = snd (absorb (core ?s0) (pending ?s0 @ concat chunks))"
    by blast
  from update_stream [OF wf0, of "concat chunks"] obtain s2 where s2:
    "blake2s_update ?s0 (concat chunks) = Some s2" "state_wf s2" "buflen s2 \<le> 64"
    "core s2 = fst (absorb (core ?s0) (pending ?s0 @ concat chunks))"
    "pending s2 = snd (absorb (core ?s0) (pending ?s0 @ concat chunks))"
    by blast
  have "blake2s_final s1 outlen = blake2s_final s2 outlen"
    using s1 s2 assms by (intro final_cong) simp_all
  then show "hash_chunks initlen chunks outlen = hash_oneshot initlen (concat chunks) outlen"
    by (simp add: hash_chunks_def hash_oneshot_def s1(1) s2(1))
  from update_stream [OF wf0, of m] obtain s3 where s3:
    "blake2s_update ?s0 m = Some s3" "state_wf s3" "buflen s3 \<le> 64"
    by blast
  show "hash_oneshot initlen m outlen \<noteq> None"
    by (simp add: hash_oneshot_def s3(1) final_closed [OF s3(2,3) assms])
qed

text \<open>
  C1: for an output length from 1 to 32, hashing a message split into any sequence of
  chunks, one \<open>blake2s_update\<close> per chunk, gives the digest of hashing the whole message
  with one \<open>blake2s_update\<close>; and that digest exists.
\<close>

theorem hash_incremental:
  "1 \<le> outlen \<Longrightarrow> outlen \<le> BLAKE2S_OUTBYTES \<Longrightarrow>
   hash_chunks outlen chunks outlen = hash_oneshot outlen (concat chunks) outlen \<and>
   hash_oneshot outlen (concat chunks) outlen \<noteq> None"
  by (simp add: hash_chunks_concat)

theorem hash_incremental_witness:
  "hash_chunks 32 [[1, 2], [], [3]] 32 = hash_oneshot 32 [1, 2, 3] 32 \<and>
   hash_oneshot 32 [1, 2, 3] 32 \<noteq> None"
  using hash_incremental [of 32 "[[1, 2], [], [3]]"] by simp

text \<open>
  C5: whenever \<open>blake2s_final\<close> returns, every field of the state is zero: chain value,
  counter, flags, buffer, fill length and last-node flag. It returns on every state whose
  fill length is at most one block, for every output length from 1 to 32.
\<close>

theorem final_erases_state:
  "(\<forall>s' out. blake2s_final s outlen = Some (s', out) \<longrightarrow>
      s' = \<lparr>h = replicate 8 0, t = [0, 0], f = [0, 0], buf = replicate BLAKE2S_BLOCKBYTES 0,
            buflen = 0, last_node = 0\<rparr>) \<and>
   (state_wf s \<and> buflen s \<le> BLAKE2S_BLOCKBYTES \<and> 1 \<le> outlen \<and> outlen \<le> BLAKE2S_OUTBYTES \<longrightarrow>
      blake2s_final s outlen \<noteq> None)"
proof -
  have "\<And>s' out. blake2s_final s outlen = Some (s', out) \<Longrightarrow> s' = zero_state"
    by (auto simp: blake2s_final_def Let_def split: Option.bind_splits)
  moreover have "zero_state = \<lparr>h = replicate 8 0, t = [0, 0], f = [0, 0],
      buf = replicate BLAKE2S_BLOCKBYTES 0, buflen = 0, last_node = 0\<rparr>"
    by (simp add: zero_state_def numeral_2_eq_2)
  ultimately show ?thesis
    by (auto simp: final_closed)
qed

theorem final_erases_state_witness:
  "map_option fst (blake2s_final (blake2s_init 32) 32) =
     Some \<lparr>h = replicate 8 0, t = [0, 0], f = [0, 0], buf = replicate BLAKE2S_BLOCKBYTES 0,
            buflen = 0, last_node = 0\<rparr>"
  using final_erases_state [of "blake2s_init 32" 32] by (auto simp: init_wf')

text \<open>
  C7: on a state with \<open>buflen\<close> buffered bytes (at most 64), \<open>blake2s_final\<close> pads the
  buffered bytes with zeros to a block of 64 bytes and compresses that block once, with
  \<open>inc\<close> the number of bytes buffered before the padding (zero for an empty buffer); the
  digest is read from the chain value of that one compression.
\<close>

theorem final_block_compression:
  "state_wf s \<Longrightarrow> buflen s \<le> BLAKE2S_BLOCKBYTES \<Longrightarrow> 1 \<le> outlen \<Longrightarrow> outlen \<le> BLAKE2S_OUTBYTES \<Longrightarrow>
   (let s1 = blake2s_set_lastblock s;
        blk = take (buflen s) (buf s) @ replicate (BLAKE2S_BLOCKBYTES - buflen s) 0;
        inc = (of_nat (buflen s) :: u32)
    in length blk = BLAKE2S_BLOCKBYTES \<and> unat inc = buflen s \<and>
       memset_at (buf s1) (buflen s1) 0 (sub_size_t BLAKE2S_BLOCKBYTES (buflen s1)) = Some blk \<and>
       blake2s_compress (s1\<lparr>buf := blk\<rparr>) blk 1 inc =
         Some (blake2s_compress_block (s1\<lparr>buf := blk\<rparr>) blk inc) \<and>
       blake2s_final s outlen =
         Some (zero_state,
           take outlen (concat (map le32_bytes
             (h (blake2s_compress_block (s1\<lparr>buf := blk\<rparr>) blk inc))))))"
proof -
  assume a: "state_wf s" "buflen s \<le> BLAKE2S_BLOCKBYTES" "1 \<le> outlen" "outlen \<le> BLAKE2S_OUTBYTES"
  have len: "length (buf s) = 64"
    using a(1) by (simp add: state_wf_def)
  have inc: "unat (of_nat (buflen s) :: u32) = buflen s"
    using a(2) by (simp add: unat_of_nat)
  have pad: "memset_at (buf s) (buflen s) 0 (sub_size_t 64 (buflen s)) =
      Some (take (buflen s) (buf s) @ replicate (64 - buflen s) 0)"
    using a(2) len by (simp add: memset_at_def sub_size_t_le)
  show ?thesis
    using a(2) len inc pad
    by (simp add: Let_def final_closed [OF a(1,2,4)] compress_one compress_block_buf_update)
qed

theorem final_block_compression_witness:
  "blake2s_final (blake2s_init 32) 32 =
     Some (zero_state,
       take 32 (concat (map le32_bytes
         (h (blake2s_compress_block
              (blake2s_set_lastblock (blake2s_init 32)\<lparr>buf := replicate BLAKE2S_BLOCKBYTES 0\<rparr>)
              (replicate BLAKE2S_BLOCKBYTES 0) 0)))))"
  using final_block_compression [of "blake2s_init 32" 32]
  by (simp add: init_wf' Let_def)

lemma update_buffered:
  assumes "state_wf s" "buflen s + length inp \<le> BLAKE2S_BLOCKBYTES"
  shows "blake2s_update s inp =
     Some (s\<lparr>buf := take (buflen s) (buf s) @ inp @ drop (buflen s + length inp) (buf s),
             buflen := buflen s + length inp\<rparr>)"
proof (cases "inp = []")
  case True
  then show ?thesis
    by (simp add: blake2s_update_def)
next
  case False
  have "sub_size_t 64 (buflen s) = 64 - buflen s"
    using assms(2) by (simp add: sub_size_t_le)
  moreover have "\<not> 64 - buflen s < length inp"
    using assms(2) by simp
  ultimately have "blake2s_update s inp = update_rest s inp"
    using False by (simp add: blake2s_update_def Let_def)
  then show ?thesis
    by (simp add: update_rest_short [OF assms])
qed

lemma init_key_closed:
  assumes "length key \<le> BLAKE2S_BLOCKBYTES"
  shows "\<exists>s. blake2s_init_key outlen key = Some s \<and> state_wf s \<and> buflen s = BLAKE2S_BLOCKBYTES \<and>
    pending s = key @ replicate (BLAKE2S_BLOCKBYTES - length key) 0"
proof -
  define s0 where "s0 = blake2s_init_param \<lparr>digest_length = of_nat outlen,
      key_length = of_nat (length key), fanout = 1,
      depth = 1, leaf_length = 0, node_offset = 0, xof_length = 0, node_depth = 0,
      inner_length = 0, salt = replicate 8 0, personal = replicate 8 0\<rparr>"
  define blk where "blk = key @ replicate (64 - length key) (0::u8)"
  have blen: "length blk = 64"
    using assms by (simp add: blk_def)
  have cp: "memcpy_at (replicate 64 0) 0 key (length key) = Some blk"
    using assms by (simp add: memcpy_at_def blk_def)
  have b0: "buflen s0 = 0" and wf0: "state_wf s0"
    by (simp_all add: s0_def init_wf)
  have fits: "buflen s0 + length blk \<le> 64"
    using blen b0 by simp
  define s1 where "s1 = s0\<lparr>buf := blk @ drop 64 (buf s0), buflen := 64\<rparr>"
  have "blake2s_init_key outlen key = blake2s_update s0 blk"
    by (simp add: blake2s_init_key_def cp s0_def)
  then have "blake2s_init_key outlen key = Some s1"
    using b0 blen by (simp add: update_buffered [OF wf0 fits] s1_def)
  moreover have "state_wf s1" "buflen s1 = 64" "pending s1 = blk"
    using wf0 blen by (simp_all add: s1_def state_wf_def pending_def)
  ultimately show ?thesis
    unfolding blk_def [symmetric] by simp
qed

text \<open>
  C10: \<open>buflen \<le> 64\<close> holds after \<open>blake2s_init\<close> and after \<open>blake2s_init_key\<close>, and
  \<open>blake2s_update\<close> preserves it for every input; on such states neither the copy into
  the buffer in \<open>blake2s_update\<close> nor the padding in \<open>blake2s_final\<close> leaves the buffer
  (the calls return). The fill length does reach 64.
\<close>

theorem buflen_invariant:
  "state_wf (blake2s_init outlen) \<and> buflen (blake2s_init outlen) \<le> BLAKE2S_BLOCKBYTES \<and>
   (\<forall>s. blake2s_init_key outlen key = Some s \<longrightarrow> state_wf s \<and> buflen s \<le> BLAKE2S_BLOCKBYTES) \<and>
   (length key \<le> BLAKE2S_KEYBYTES \<longrightarrow> blake2s_init_key outlen key \<noteq> None) \<and>
   (state_wf s \<and> buflen s \<le> BLAKE2S_BLOCKBYTES \<longrightarrow>
      (\<exists>s'. blake2s_update s inp = Some s' \<and> state_wf s' \<and> buflen s' \<le> BLAKE2S_BLOCKBYTES) \<and>
      (outlen' \<le> BLAKE2S_OUTBYTES \<longrightarrow> blake2s_final s outlen' \<noteq> None)) \<and>
   map_option buflen (blake2s_update (blake2s_init outlen) (replicate BLAKE2S_BLOCKBYTES 0)) =
     Some BLAKE2S_BLOCKBYTES"
proof -
  have key: "\<forall>s. blake2s_init_key outlen key = Some s \<longrightarrow> state_wf s \<and> buflen s \<le> 64"
  proof (cases "length key \<le> 64")
    case True
    from init_key_closed [OF True, of outlen] show ?thesis by auto
  next
    case False
    then show ?thesis
      by (simp add: blake2s_init_key_def memcpy_at_def)
  qed
  have key': "length key \<le> 32 \<longrightarrow> blake2s_init_key outlen key \<noteq> None"
    using init_key_closed [of key outlen] by auto
  have upd: "state_wf s \<and> buflen s \<le> 64 \<longrightarrow>
      (\<exists>s'. blake2s_update s inp = Some s' \<and> state_wf s' \<and> buflen s' \<le> 64)"
    using update_stream [of s inp] by blast
  have fin: "state_wf s \<and> buflen s \<le> 64 \<longrightarrow> outlen' \<le> 32 \<longrightarrow> blake2s_final s outlen' \<noteq> None"
    by (simp add: final_closed)
  have full: "map_option buflen (blake2s_update (blake2s_init outlen) (replicate 64 0)) = Some 64"
  proof -
    have wf: "state_wf (blake2s_init outlen)"
      "buflen (blake2s_init outlen) + length (replicate 64 (0::u8)) \<le> 64"
      by (simp_all add: init_wf')
    show ?thesis
      by (simp add: update_buffered [OF wf] init_wf')
  qed
  show ?thesis
    using key key' upd fin full by (simp add: init_wf')
qed

theorem buflen_invariant_witness:
  "(\<exists>s'. blake2s_update (blake2s_init 32) [1, 2, 3] = Some s' \<and> state_wf s' \<and>
        buflen s' \<le> BLAKE2S_BLOCKBYTES) \<and>
   blake2s_final (blake2s_init 32) 32 \<noteq> None \<and>
   blake2s_init_key 32 [1, 2, 3] \<noteq> None"
  using buflen_invariant [of 32 "[1, 2, 3]" "blake2s_init 32" "[1, 2, 3]" 32]
  by (simp add: init_wf')

subsection \<open>The top-off step of update\<close>

lemma update_over:
  assumes "state_wf s" "buflen s \<le> BLAKE2S_BLOCKBYTES" "BLAKE2S_BLOCKBYTES < buflen s + length inp"
  defines "blk \<equiv> take (buflen s) (buf s) @ take (BLAKE2S_BLOCKBYTES - buflen s) inp"
  shows "length blk = BLAKE2S_BLOCKBYTES"
    and "drop (BLAKE2S_BLOCKBYTES - buflen s) inp \<noteq> []"
    and "blake2s_update s inp =
      update_rest ((blake2s_compress_block (s\<lparr>buf := blk\<rparr>) blk 64)\<lparr>buflen := 0\<rparr>)
        (drop (BLAKE2S_BLOCKBYTES - buflen s) inp)"
proof -
  have len: "length (buf s) = 64"
    using assms(1) by (simp add: state_wf_def)
  have fill: "sub_size_t 64 (buflen s) = 64 - buflen s"
    using assms(2) by (simp add: sub_size_t_le)
  have over: "64 - buflen s < length inp" "inp \<noteq> []"
    using assms(2,3) by auto
  show blen: "length blk = 64"
    using over assms(2) len by (simp add: blk_def)
  show "drop (64 - buflen s) inp \<noteq> []"
    using over by simp
  have cp: "memcpy_at (buf s) (buflen s) inp (64 - buflen s) = Some blk"
    using over assms(2) len by (simp add: memcpy_at_def blk_def)
  have top: "update_topoff s inp (64 - buflen s) =
      Some ((blake2s_compress_block (s\<lparr>buf := blk\<rparr>) blk 64)\<lparr>buflen := 0\<rparr>, drop (64 - buflen s) inp)"
    using blen by (simp add: update_topoff_def cp compress_one)
  show "blake2s_update s inp =
      update_rest ((blake2s_compress_block (s\<lparr>buf := blk\<rparr>) blk 64)\<lparr>buflen := 0\<rparr>)
        (drop (64 - buflen s) inp)"
    using over by (simp add: blake2s_update_def fill Let_def top)
qed

text \<open>
  C2, as the code has it: when the buffered bytes and the input together exceed one block
  (\<open>buflen + n > 64\<close>), \<open>blake2s_update\<close> copies \<open>64 - buflen\<close> input bytes to fill the
  buffer, compresses that block once with \<open>inc = 64\<close>, sets the fill length to zero and
  goes on with the rest of the input, which is not empty. When they fit in one block
  (\<open>buflen + n \<le> 64\<close>, a full block included), nothing is compressed and the input is
  appended to the buffer.
\<close>

theorem update_topoff_step:
  "state_wf s \<Longrightarrow> buflen s \<le> BLAKE2S_BLOCKBYTES \<Longrightarrow>
   (BLAKE2S_BLOCKBYTES < buflen s + length inp \<longrightarrow>
      (let blk = take (buflen s) (buf s) @ take (BLAKE2S_BLOCKBYTES - buflen s) inp;
           s1 = (blake2s_compress_block (s\<lparr>buf := blk\<rparr>) blk 64)\<lparr>buflen := 0\<rparr>
       in length blk = BLAKE2S_BLOCKBYTES \<and> drop (BLAKE2S_BLOCKBYTES - buflen s) inp \<noteq> [] \<and>
          blake2s_update s inp = update_rest s1 (drop (BLAKE2S_BLOCKBYTES - buflen s) inp))) \<and>
   (buflen s + length inp \<le> BLAKE2S_BLOCKBYTES \<longrightarrow>
      blake2s_update s inp =
        Some (s\<lparr>buf := take (buflen s) (buf s) @ inp @ drop (buflen s + length inp) (buf s),
                buflen := buflen s + length inp\<rparr>))"
  using update_over [of s inp] update_buffered [of s inp] by (simp add: Let_def)

theorem update_topoff_step_witness:
  "blake2s_update (blake2s_init 32) (replicate 65 7) =
     update_rest
       ((blake2s_compress_block (blake2s_init 32\<lparr>buf := replicate 64 7\<rparr>) (replicate 64 7) 64)
          \<lparr>buflen := 0\<rparr>) [7]"
  using update_topoff_step [of "blake2s_init 32" "replicate 65 7"]
  by (simp add: init_wf' Let_def)

text \<open>
  C2 with "fills or exceeds" fails where the input fills the block exactly: 64
  bytes into a fresh state are buffered, the fill length becomes 64, and chain value and
  counter are those of the fresh state.
\<close>

theorem update_topoff_counterexample:
  "replicate 64 (0::u8) \<noteq> [] \<and>
   BLAKE2S_BLOCKBYTES \<le> buflen (blake2s_init 32) + length (replicate 64 (0::u8)) \<and>
   blake2s_update (blake2s_init 32) (replicate 64 0) \<noteq>
     Option.bind (update_topoff (blake2s_init 32) (replicate 64 0)
                    (BLAKE2S_BLOCKBYTES - buflen (blake2s_init 32)))
       (case_prod update_rest) \<and>
   map_option buflen (blake2s_update (blake2s_init 32) (replicate 64 0)) = Some 64 \<and>
   map_option t (blake2s_update (blake2s_init 32) (replicate 64 0)) = Some [0, 0] \<and>
   map_option h (blake2s_update (blake2s_init 32) (replicate 64 0)) = Some (h (blake2s_init 32))"
proof -
  let ?s = "blake2s_init 32" and ?inp = "replicate 64 (0::u8)"
  have wf: "state_wf ?s" "buflen ?s + length ?inp \<le> 64"
    by (simp_all add: init_wf')
  have b0: "buflen ?s = 0" "length (buf ?s) = 64"
    using wf(1) by (simp_all add: init_wf' state_wf_def)
  have u: "blake2s_update ?s ?inp = Some (?s\<lparr>buf := ?inp, buflen := 64\<rparr>)"
    using b0 by (simp add: update_buffered [OF wf])
  have cp: "memcpy_at (buf ?s) 0 ?inp 64 = Some ?inp"
    using b0 by (simp add: memcpy_at_def)
  define s1 where "s1 = (blake2s_compress_block (?s\<lparr>buf := ?inp\<rparr>) ?inp 64)\<lparr>buflen := 0\<rparr>"
  have top: "update_topoff ?s ?inp 64 = Some (s1, [])"
    by (simp add: update_topoff_def b0 cp compress_one s1_def)
  have wf1: "state_wf s1" "buflen s1 + length ([]::u8 list) \<le> 64"
    using wf(1) by (simp_all add: s1_def state_wf_def)
  have "Option.bind (update_topoff ?s ?inp (64 - buflen ?s)) (case_prod update_rest) =
      Some (s1\<lparr>buf := take (buflen s1) (buf s1) @ drop (buflen s1) (buf s1), buflen := buflen s1\<rparr>)"
    by (simp add: b0 top update_rest_short [OF wf1])
  then have "map_option buflen
      (Option.bind (update_topoff ?s ?inp (64 - buflen ?s)) (case_prod update_rest)) = Some 0"
    by (simp add: s1_def)
  moreover have "map_option buflen (blake2s_update ?s ?inp) = Some 64"
    by (simp add: u)
  ultimately have "blake2s_update ?s ?inp \<noteq>
      Option.bind (update_topoff ?s ?inp (64 - buflen ?s)) (case_prod update_rest)"
    by auto
  moreover have "t ?s = [0, 0]"
    by (simp add: blake2s_init_def blake2s_init_param_def zero_state_def numeral_2_eq_2)
  ultimately show ?thesis
    using b0 by (simp add: u)
qed

subsection \<open>HMAC and truncation\<close>

lemma final_length:
  assumes "state_wf s" "buflen s \<le> BLAKE2S_BLOCKBYTES" "k \<le> BLAKE2S_OUTBYTES"
  shows "\<exists>d. blake2s_final s k = Some (zero_state, d) \<and> length d = k"
  using assms(3) by (simp add: final_closed [OF assms] length_le32_concat)

lemma update_final:
  assumes "k \<le> BLAKE2S_OUTBYTES"
  shows "\<exists>d. hash_oneshot n m k = Some d \<and> length d = k \<and>
    blake2s_update (blake2s_init n) m \<bind> (\<lambda>s. blake2s_final s k) = Some (zero_state, d)"
proof -
  from update_stream [of "blake2s_init n" m] obtain s1 where s1:
    "blake2s_update (blake2s_init n) m = Some s1" "state_wf s1" "buflen s1 \<le> 64"
    by (auto simp: init_wf')
  from final_length [OF s1(2,3) assms] obtain d where
    "blake2s_final s1 k = Some (zero_state, d)" "length d = k"
    by blast
  then show ?thesis
    by (simp add: hash_oneshot_def s1(1))
qed

lemma update_update_final:
  assumes "k \<le> BLAKE2S_OUTBYTES"
  shows "\<exists>d. hash_oneshot n (a @ b) k = Some d \<and> length d = k \<and>
    blake2s_update (blake2s_init n) a \<bind> (\<lambda>s. blake2s_update s b \<bind> (\<lambda>s. blake2s_final s k)) =
      Some (zero_state, d)"
proof -
  from update_final [OF assms, of n "a @ b"] obtain d where d:
    "hash_oneshot n (a @ b) k = Some d" "length d = k"
    by blast
  have eq: "hash_chunks n [a, b] k = Some d"
    using hash_chunks_concat(1) [OF assms, of n "[a, b]"] d(1) by simp
  from update_stream [of "blake2s_init n" a] obtain s1 where s1:
    "blake2s_update (blake2s_init n) a = Some s1" "state_wf s1" "buflen s1 \<le> 64"
    by (auto simp: init_wf')
  from update_stream [OF s1(2,3), of b] obtain s2 where s2:
    "blake2s_update s1 b = Some s2" "state_wf s2" "buflen s2 \<le> 64"
    by blast
  from final_length [OF s2(2,3) assms] obtain d' where d':
    "blake2s_final s2 k = Some (zero_state, d')"
    by blast
  have "d' = d"
    using eq by (simp add: hash_chunks_def s1(1) s2(1) d')
  then show ?thesis
    using d by (simp add: s1(1) s2(1) d')
qed

lemma xor_pads: "(b XOR 54) XOR 106 = b XOR 92" for b :: u8
  by (simp add: xor.assoc)

lemma hmac_refines:
  assumes "outlen \<le> BLAKE2S_OUTBYTES"
  shows "blake2s_hmac msg key outlen = hmac_spec msg key outlen"
    and "hmac_spec msg key outlen \<noteq> None"
proof -
  define k' where "k' = (if length key \<le> 64 then key @ replicate (64 - length key) 0
      else the (hash_oneshot 32 key 32) @ replicate 32 (0::u8))"
  have xk: "(if 64 < length key
       then blake2s_update (blake2s_init 32) key \<bind>
            (\<lambda>state. blake2s_final state 32 \<bind>
               (\<lambda>(state, d). memcpy_at (replicate 64 0) 0 d 32))
       else memcpy_at (replicate 64 0) 0 key (length key)) = Some k'"
   and xk': "(if length key \<le> 64 then Some (key @ replicate (64 - length key) 0)
       else hash_oneshot 32 key 32 \<bind> (\<lambda>d. Some (d @ replicate (64 - length d) 0))) = Some k'"
  proof -
    from update_final [of 32 32 key] obtain d where d:
      "hash_oneshot 32 key 32 = Some d" "length d = 32"
      "blake2s_update (blake2s_init 32) key \<bind> (\<lambda>s. blake2s_final s 32) = Some (zero_state, d)"
      by auto
    have "blake2s_update (blake2s_init 32) key \<bind>
            (\<lambda>state. blake2s_final state 32 \<bind>
               (\<lambda>(state, d). memcpy_at (replicate 64 0) 0 d 32)) =
          (blake2s_update (blake2s_init 32) key \<bind> (\<lambda>s. blake2s_final s 32)) \<bind>
               (\<lambda>(state, d). memcpy_at (replicate 64 0) 0 d 32)"
      by simp
    also have "\<dots> = Some (d @ replicate 32 0)"
      unfolding d(3) using d(2) by (simp add: memcpy_at_def)
    finally show "(if 64 < length key
       then blake2s_update (blake2s_init 32) key \<bind>
            (\<lambda>state. blake2s_final state 32 \<bind>
               (\<lambda>(state, d). memcpy_at (replicate 64 0) 0 d 32))
       else memcpy_at (replicate 64 0) 0 key (length key)) = Some k'"
      using d(1) by (simp add: k'_def memcpy_at_def)
    show "(if length key \<le> 64 then Some (key @ replicate (64 - length key) 0)
       else hash_oneshot 32 key 32 \<bind> (\<lambda>d. Some (d @ replicate (64 - length d) 0))) = Some k'"
      using d(1,2) by (simp add: k'_def)
  qed
  define ipad where "ipad = map (\<lambda>b. b XOR 0x36) k'"
  define opad where "opad = map (\<lambda>b. b XOR 0x5c) k'"
  have opad: "map ((\<lambda>b. b XOR 106) \<circ> (\<lambda>b. b XOR 54)) k' = opad"
    by (simp add: opad_def xor_pads)
  from update_update_final [of 32 32 ipad msg] obtain ih where ih:
    "hash_oneshot 32 (ipad @ msg) 32 = Some ih" "length ih = 32"
    "blake2s_update (blake2s_init 32) ipad \<bind>
       (\<lambda>s. blake2s_update s msg \<bind> (\<lambda>s. blake2s_final s 32)) = Some (zero_state, ih)"
    by auto
  from update_update_final [of 32 32 opad ih] obtain oh where oh:
    "hash_oneshot 32 (opad @ ih) 32 = Some oh" "length oh = 32"
    "blake2s_update (blake2s_init 32) opad \<bind>
       (\<lambda>s. blake2s_update s ih \<bind> (\<lambda>s. blake2s_final s 32)) = Some (zero_state, oh)"
    by auto
  have inner: "blake2s_update (blake2s_init 32) ipad \<bind>
       (\<lambda>s. blake2s_update s msg \<bind> (\<lambda>s. blake2s_final s 32 \<bind> F)) = F (zero_state, ih)" for F :: "blake2s_state \<times> u8 list \<Rightarrow> u8 list option"
    using ih(3) by (auto split: Option.bind_splits)
  have outer: "blake2s_update (blake2s_init 32) opad \<bind>
       (\<lambda>s. blake2s_update s ih \<bind> (\<lambda>s. blake2s_final s 32 \<bind> F)) = F (zero_state, oh)" for F :: "blake2s_state \<times> u8 list \<Rightarrow> u8 list option"
    using oh(3) by (auto split: Option.bind_splits)
  have spec: "hmac_spec msg key outlen = Some (take outlen oh)"
    unfolding hmac_spec_def xk' by (simp add: ih(1) oh(1) ipad_def [symmetric] opad_def [symmetric])
  have "blake2s_hmac msg key outlen = Some (take outlen oh)"
    unfolding blake2s_hmac_def xk
    using assms oh(2)
    by (simp add: Let_def ipad_def [symmetric] opad inner outer memcpy_at_def)
  with spec show "blake2s_hmac msg key outlen = hmac_spec msg key outlen"
    by simp
  from spec show "hmac_spec msg key outlen \<noteq> None"
    by simp
qed

text \<open>
  C4: for an output length from 1 to 32, \<open>blake2s_hmac\<close> writes the first \<open>outlen\<close> bytes
  of \<open>H ((K' XOR 0x5c...) || H ((K' XOR 0x36...) || message))\<close>, with \<open>H\<close> the unkeyed hash of
  32 bytes and \<open>K'\<close> the key padded with zeros to 64 bytes, or the padded hash of the key
  when the key is longer than 64 bytes.
\<close>

theorem hmac_construction:
  "1 \<le> outlen \<Longrightarrow> outlen \<le> BLAKE2S_OUTBYTES \<Longrightarrow>
   blake2s_hmac msg key outlen = hmac_spec msg key outlen \<and> hmac_spec msg key outlen \<noteq> None"
  by (simp add: hmac_refines)

theorem hmac_construction_witness:
  "blake2s_hmac [1, 2, 3] [4, 5] 16 = hmac_spec [1, 2, 3] [4, 5] 16 \<and>
   hmac_spec [1, 2, 3] [4, 5] 16 \<noteq> None"
  using hmac_construction [of 16 "[1, 2, 3]" "[4, 5]"] by simp

text \<open>
  C3, as the code has it: for one and the same length given to \<open>blake2s_init\<close>, the
  digest that \<open>blake2s_final\<close> writes for an output length from 1 to 32 is the first
  \<open>outlen\<close> bytes of the digest it writes for output length 32.
\<close>

theorem truncation_same_init:
  "1 \<le> outlen \<Longrightarrow> outlen \<le> BLAKE2S_OUTBYTES \<Longrightarrow>
   hash_oneshot initlen m outlen = map_option (take outlen) (hash_oneshot initlen m BLAKE2S_OUTBYTES) \<and>
   hash_oneshot initlen m outlen \<noteq> None"
proof -
  assume a: "1 \<le> outlen" "outlen \<le> BLAKE2S_OUTBYTES"
  from update_stream [of "blake2s_init initlen" m] obtain s1 where s1:
    "blake2s_update (blake2s_init initlen) m = Some s1" "state_wf s1" "buflen s1 \<le> 64"
    by (auto simp: init_wf')
  show ?thesis
    using a(2)
    by (simp add: hash_oneshot_def s1(1) final_closed [OF s1(2,3)] min_def)
qed

theorem truncation_same_init_witness:
  "hash_oneshot 32 [1, 2, 3] 16 = map_option (take 16) (hash_oneshot 32 [1, 2, 3] 32) \<and>
   hash_oneshot 32 [1, 2, 3] 16 \<noteq> None"
proof -
  have "1 \<le> (16::nat)" "16 \<le> BLAKE2S_OUTBYTES"
    by simp_all
  from truncation_same_init [OF this] show ?thesis .
qed

subsection \<open>The empty message with output lengths 16 and 32\<close>

lemma compress_block_steps:
  "h (blake2s_compress_block state block inc) =
     chain_update (h (blake2s_increment_counter state inc))
       (fold (\<lambda>r. ROUND r (message_words block)) [0..<10]
          (work_vector (blake2s_increment_counter state inc)))"
  by (simp add: blake2s_compress_block_def Let_def message_words_def work_vector_def
      chain_update_def)

lemma upt10: "[0..<10] = [0, 1, 2, 3, 4, 5, 6, 7, 8, 9]"
  by code_simp

lemma zero_block_words: "message_words (replicate 64 0) = replicate 16 0"
  by code_simp

lemma empty16_start:
  "h (blake2s_increment_counter (blake2s_set_lastblock (blake2s_init 16)) 0) =
     [0x6B08E677, 0xBB67AE85, 0x3C6EF372, 0xA54FF53A,
     0x510E527F, 0x9B05688C, 0x1F83D9AB, 0x5BE0CD19]"
  "work_vector (blake2s_increment_counter (blake2s_set_lastblock (blake2s_init 16)) 0) =
     [0x6B08E677, 0xBB67AE85, 0x3C6EF372, 0xA54FF53A,
     0x510E527F, 0x9B05688C, 0x1F83D9AB, 0x5BE0CD19,
     0x6A09E667, 0xBB67AE85, 0x3C6EF372, 0xA54FF53A,
     0x510E527F, 0x9B05688C, 0xE07C2654, 0x5BE0CD19]"
  by code_simp+

lemma empty16_round0:
  "ROUND 0 (replicate 16 0)
     [0x6B08E677, 0xBB67AE85, 0x3C6EF372, 0xA54FF53A,
     0x510E527F, 0x9B05688C, 0x1F83D9AB, 0x5BE0CD19,
     0x6A09E667, 0xBB67AE85, 0x3C6EF372, 0xA54FF53A,
     0x510E527F, 0x9B05688C, 0xE07C2654, 0x5BE0CD19] =
     [0x829F478D, 0x2486D926, 0x1E09B699, 0x8DF59573,
     0xB0BB2305, 0x4A44D108, 0xF4504F55, 0x6DBA6293,
     0x12339B77, 0x318FF5AF, 0x3BEF6BB7, 0xF60EBD20,
     0xCD63B548, 0x6CE70B83, 0x897FE2EE, 0x47F08702]"
  by code_simp

lemma empty16_round1:
  "ROUND 1 (replicate 16 0)
     [0x829F478D, 0x2486D926, 0x1E09B699, 0x8DF59573,
     0xB0BB2305, 0x4A44D108, 0xF4504F55, 0x6DBA6293,
     0x12339B77, 0x318FF5AF, 0x3BEF6BB7, 0xF60EBD20,
     0xCD63B548, 0x6CE70B83, 0x897FE2EE, 0x47F08702] =
     [0xC95156B9, 0x6EE447C0, 0xF93623B3, 0x80AACB81,
     0xCD502117, 0x2600B955, 0xF15474A2, 0x5DE38BFB,
     0x04FD7D57, 0xED4E4B46, 0xB2C110CE, 0x4023959F,
     0x0B985617, 0x33F3CFBC, 0x807DBF27, 0xCF203388]"
  by code_simp

lemma empty16_round2:
  "ROUND 2 (replicate 16 0)
     [0xC95156B9, 0x6EE447C0, 0xF93623B3, 0x80AACB81,
     0xCD502117, 0x2600B955, 0xF15474A2, 0x5DE38BFB,
     0x04FD7D57, 0xED4E4B46, 0xB2C110CE, 0x4023959F,
     0x0B985617, 0x33F3CFBC, 0x807DBF27, 0xCF203388] =
     [0xCF93CC9C, 0xEB039A62, 0x1B1A61B7, 0xA4B99295,
     0xC5D44A70, 0x15E3B694, 0x747008C8, 0x6D29F8D9,
     0xB9E390C0, 0xF0EC2E03, 0x21462D46, 0x498BC25A,
     0x7FF8ADF9, 0xC6A91C13, 0xA257A929, 0xA7A33422]"
  by code_simp

lemma empty16_round3:
  "ROUND 3 (replicate 16 0)
     [0xCF93CC9C, 0xEB039A62, 0x1B1A61B7, 0xA4B99295,
     0xC5D44A70, 0x15E3B694, 0x747008C8, 0x6D29F8D9,
     0xB9E390C0, 0xF0EC2E03, 0x21462D46, 0x498BC25A,
     0x7FF8ADF9, 0xC6A91C13, 0xA257A929, 0xA7A33422] =
     [0x58AB1A7F, 0x581272BF, 0x9BAD46AF, 0xE71F5BBB,
     0x294C4545, 0xBAADA3F8, 0xD94DB411, 0xAFC5E10D,
     0x0D22D891, 0x9543DB84, 0x776AD3A7, 0x60887544,
     0x1D2BC8AC, 0x14AFD6B9, 0x0B10E071, 0x39E772EA]"
  by code_simp

lemma empty16_round4:
  "ROUND 4 (replicate 16 0)
     [0x58AB1A7F, 0x581272BF, 0x9BAD46AF, 0xE71F5BBB,
     0x294C4545, 0xBAADA3F8, 0xD94DB411, 0xAFC5E10D,
     0x0D22D891, 0x9543DB84, 0x776AD3A7, 0x60887544,
     0x1D2BC8AC, 0x14AFD6B9, 0x0B10E071, 0x39E772EA] =
     [0x07F2923B, 0xD4EC44F2, 0xE9F0378A, 0xEE3C3DF8,
     0xFBA4B87E, 0xC041BD71, 0x09146D33, 0x2014C112,
     0xAAEC4F07, 0xD7D0843D, 0xD402E64B, 0x2BD99BCD,
     0x1C7EE59D, 0x1AE9936A, 0xA12254E1, 0x88839E37]"
  by code_simp

lemma empty16_round5:
  "ROUND 5 (replicate 16 0)
     [0x07F2923B, 0xD4EC44F2, 0xE9F0378A, 0xEE3C3DF8,
     0xFBA4B87E, 0xC041BD71, 0x09146D33, 0x2014C112,
     0xAAEC4F07, 0xD7D0843D, 0xD402E64B, 0x2BD99BCD,
     0x1C7EE59D, 0x1AE9936A, 0xA12254E1, 0x88839E37] =
     [0x128D4287, 0x51DCF6F7, 0xE783BE09, 0xF2A065D8,
     0x84B6B0BB, 0x319300A3, 0xAE6E0743, 0x8542B57D,
     0x5376A7E4, 0x3BBA47B0, 0xE3E213D0, 0xE5BA542F,
     0x17F45A66, 0xE3C26391, 0xD1D4EDA0, 0x8454FB31]"
  by code_simp

lemma empty16_round6:
  "ROUND 6 (replicate 16 0)
     [0x128D4287, 0x51DCF6F7, 0xE783BE09, 0xF2A065D8,
     0x84B6B0BB, 0x319300A3, 0xAE6E0743, 0x8542B57D,
     0x5376A7E4, 0x3BBA47B0, 0xE3E213D0, 0xE5BA542F,
     0x17F45A66, 0xE3C26391, 0xD1D4EDA0, 0x8454FB31] =
     [0xDDCBC717, 0xFEE77243, 0xD39B3740, 0xD6926DD5,
     0x965A782F, 0x29BA8140, 0x70BF3178, 0x55A48E80,
     0x513ADDF9, 0x899893A6, 0x3FD3AAD8, 0xFFEB8CCC,
     0x87D05E80, 0xDA1E4BCE, 0xB1885128, 0x6E9222BF]"
  by code_simp

lemma empty16_round7:
  "ROUND 7 (replicate 16 0)
     [0xDDCBC717, 0xFEE77243, 0xD39B3740, 0xD6926DD5,
     0x965A782F, 0x29BA8140, 0x70BF3178, 0x55A48E80,
     0x513ADDF9, 0x899893A6, 0x3FD3AAD8, 0xFFEB8CCC,
     0x87D05E80, 0xDA1E4BCE, 0xB1885128, 0x6E9222BF] =
     [0xD9A141BB, 0x1F8FCA3D, 0xC0AE6BE0, 0x8640E836,
     0xCDB9FB7F, 0xA5CAF937, 0x23F84AA0, 0x706B017D,
     0x464C21F3, 0x806BEE44, 0x8DA376ED, 0xC0B146C9,
     0xB7428CDE, 0x23B9B0DB, 0xC4FB2762, 0xEF582CFC]"
  by code_simp

lemma empty16_round8:
  "ROUND 8 (replicate 16 0)
     [0xD9A141BB, 0x1F8FCA3D, 0xC0AE6BE0, 0x8640E836,
     0xCDB9FB7F, 0xA5CAF937, 0x23F84AA0, 0x706B017D,
     0x464C21F3, 0x806BEE44, 0x8DA376ED, 0xC0B146C9,
     0xB7428CDE, 0x23B9B0DB, 0xC4FB2762, 0xEF582CFC] =
     [0xAE77089A, 0xBA065D0B, 0xC61E24EB, 0xEB9C800F,
     0x0DE5B660, 0xFC2B1EAF, 0x80E3EE3B, 0x5A7A02E1,
     0xA15B652A, 0x4CEB2618, 0xE53D1EEA, 0x39D49955,
     0x6608F5E3, 0xDA397C68, 0x312A33AD, 0x8995B82F]"
  by code_simp

lemma empty16_round9:
  "ROUND 9 (replicate 16 0)
     [0xAE77089A, 0xBA065D0B, 0xC61E24EB, 0xEB9C800F,
     0x0DE5B660, 0xFC2B1EAF, 0x80E3EE3B, 0x5A7A02E1,
     0xA15B652A, 0x4CEB2618, 0xE53D1EEA, 0x39D49955,
     0x6608F5E3, 0xDA397C68, 0x312A33AD, 0x8995B82F] =
     [0x3D9685CC, 0x116B7945, 0x85A5579C, 0x5BA22228,
     0x0B96AEE4, 0xB1195BF7, 0x0B3EC06F, 0x0EED57E3,
     0x399336DF, 0xAB06FB3E, 0xA771EE4F, 0xF2CD37BF,
     0xFE3B628C, 0x88EB884B, 0xA1D25C2C, 0xA53B03C1]"
  by code_simp

lemma empty16_rounds:
  "fold (\<lambda>r. ROUND r (replicate 16 0)) [0..<10]
     [0x6B08E677, 0xBB67AE85, 0x3C6EF372, 0xA54FF53A,
     0x510E527F, 0x9B05688C, 0x1F83D9AB, 0x5BE0CD19,
     0x6A09E667, 0xBB67AE85, 0x3C6EF372, 0xA54FF53A,
     0x510E527F, 0x9B05688C, 0xE07C2654, 0x5BE0CD19] =
     [0x3D9685CC, 0x116B7945, 0x85A5579C, 0x5BA22228,
     0x0B96AEE4, 0xB1195BF7, 0x0B3EC06F, 0x0EED57E3,
     0x399336DF, 0xAB06FB3E, 0xA771EE4F, 0xF2CD37BF,
     0xFE3B628C, 0x88EB884B, 0xA1D25C2C, 0xA53B03C1]"
  by (simp only: upt10 fold_simps comp_apply id_apply
      empty16_round0 empty16_round1 empty16_round2 empty16_round3 empty16_round4 empty16_round5 empty16_round6 empty16_round7 empty16_round8 empty16_round9)

lemma empty16_chain:
  "h (blake2s_compress_block (blake2s_set_lastblock (blake2s_init 16)) (replicate 64 0) 0) =
     [0x6F0D5564, 0x010A2CFE, 0x1EBA4AA1, 0x0C20E0AD,
     0xA4A39E17, 0xA2F7BB30, 0xB56F45E8, 0xF036993B]"
proof -
  have "chain_update
     [0x6B08E677, 0xBB67AE85, 0x3C6EF372, 0xA54FF53A,
     0x510E527F, 0x9B05688C, 0x1F83D9AB, 0x5BE0CD19]
     [0x3D9685CC, 0x116B7945, 0x85A5579C, 0x5BA22228,
     0x0B96AEE4, 0xB1195BF7, 0x0B3EC06F, 0x0EED57E3,
     0x399336DF, 0xAB06FB3E, 0xA771EE4F, 0xF2CD37BF,
     0xFE3B628C, 0x88EB884B, 0xA1D25C2C, 0xA53B03C1] =
     [0x6F0D5564, 0x010A2CFE, 0x1EBA4AA1, 0x0C20E0AD,
     0xA4A39E17, 0xA2F7BB30, 0xB56F45E8, 0xF036993B]"
    by code_simp
  then show ?thesis
    by (simp only: compress_block_steps zero_block_words empty16_start empty16_rounds)
qed

lemma empty16_digest:
  "hash_oneshot 16 [] 16 =
     Some [0x64, 0x55, 0x0D, 0x6F, 0xFE, 0x2C, 0x0A, 0x01,
          0xA1, 0x4A, 0xBA, 0x1E, 0xAD, 0xE0, 0x20, 0x0C]"
proof -
  have "take 16 (concat (map le32_bytes
     [0x6F0D5564, 0x010A2CFE, 0x1EBA4AA1, 0x0C20E0AD,
     0xA4A39E17, 0xA2F7BB30, 0xB56F45E8, 0xF036993B])) =
     [0x64, 0x55, 0x0D, 0x6F, 0xFE, 0x2C, 0x0A, 0x01,
     0xA1, 0x4A, 0xBA, 0x1E, 0xAD, 0xE0, 0x20, 0x0C]"
    by code_simp
  then show ?thesis
    using final_closed [of "blake2s_init 16" 16]
    by (simp add: hash_oneshot_def blake2s_update_def init_wf' empty16_chain)
qed

lemma empty32_start:
  "h (blake2s_increment_counter (blake2s_set_lastblock (blake2s_init 32)) 0) =
     [0x6B08E647, 0xBB67AE85, 0x3C6EF372, 0xA54FF53A,
     0x510E527F, 0x9B05688C, 0x1F83D9AB, 0x5BE0CD19]"
  "work_vector (blake2s_increment_counter (blake2s_set_lastblock (blake2s_init 32)) 0) =
     [0x6B08E647, 0xBB67AE85, 0x3C6EF372, 0xA54FF53A,
     0x510E527F, 0x9B05688C, 0x1F83D9AB, 0x5BE0CD19,
     0x6A09E667, 0xBB67AE85, 0x3C6EF372, 0xA54FF53A,
     0x510E527F, 0x9B05688C, 0xE07C2654, 0x5BE0CD19]"
  by code_simp+

lemma empty32_round0:
  "ROUND 0 (replicate 16 0)
     [0x6B08E647, 0xBB67AE85, 0x3C6EF372, 0xA54FF53A,
     0x510E527F, 0x9B05688C, 0x1F83D9AB, 0x5BE0CD19,
     0x6A09E667, 0xBB67AE85, 0x3C6EF372, 0xA54FF53A,
     0x510E527F, 0x9B05688C, 0xE07C2654, 0x5BE0CD19] =
     [0x82A01B5D, 0x248BD8F5, 0x1DA4B59A, 0xB37B2BD3,
     0x515F5AF4, 0x0301095B, 0xB151A3C2, 0x5E17F96F,
     0xC561666D, 0x0F291605, 0x990C6D13, 0x76FFF6F1,
     0x1E53BF19, 0x6FE4A680, 0x08E33663, 0x97FD885E]"
  by code_simp

lemma empty32_round1:
  "ROUND 1 (replicate 16 0)
     [0x82A01B5D, 0x248BD8F5, 0x1DA4B59A, 0xB37B2BD3,
     0x515F5AF4, 0x0301095B, 0xB151A3C2, 0x5E17F96F,
     0xC561666D, 0x0F291605, 0x990C6D13, 0x76FFF6F1,
     0x1E53BF19, 0x6FE4A680, 0x08E33663, 0x97FD885E] =
     [0xC49F0ED6, 0xC8AC50D7, 0xC995D740, 0x944AE358,
     0xE09AF911, 0xA753C17A, 0x7D615094, 0xAECF420E,
     0xD25ECF92, 0x7DBDC401, 0x131C8943, 0xA5C5FEBF,
     0xE2C142E8, 0x08E65779, 0x639C00A0, 0x8D981A93]"
  by code_simp

lemma empty32_round2:
  "ROUND 2 (replicate 16 0)
     [0xC49F0ED6, 0xC8AC50D7, 0xC995D740, 0x944AE358,
     0xE09AF911, 0xA753C17A, 0x7D615094, 0xAECF420E,
     0xD25ECF92, 0x7DBDC401, 0x131C8943, 0xA5C5FEBF,
     0xE2C142E8, 0x08E65779, 0x639C00A0, 0x8D981A93] =
     [0xFE7772B5, 0xEEB394B6, 0x27047354, 0x3C028B00,
     0xB93A58DB, 0xF0216B2D, 0x0AE7F704, 0x3BA8EEDF,
     0x10E932FE, 0x60FFD24C, 0x375E3645, 0x3B813341,
     0x440B01FC, 0x3ECCE047, 0x2318F12D, 0x39D49D88]"
  by code_simp

lemma empty32_round3:
  "ROUND 3 (replicate 16 0)
     [0xFE7772B5, 0xEEB394B6, 0x27047354, 0x3C028B00,
     0xB93A58DB, 0xF0216B2D, 0x0AE7F704, 0x3BA8EEDF,
     0x10E932FE, 0x60FFD24C, 0x375E3645, 0x3B813341,
     0x440B01FC, 0x3ECCE047, 0x2318F12D, 0x39D49D88] =
     [0x8A972823, 0x2AC19961, 0x23646C41, 0x14E9121C,
     0xD2514751, 0xBE8D8158, 0x66803538, 0xA11FFD67,
     0xF2FDE558, 0x864DB2E0, 0x8CD484B9, 0x8FD88E24,
     0xC9268A2E, 0x4CFE3592, 0x68500520, 0x2CBF2472]"
  by code_simp

lemma empty32_round4:
  "ROUND 4 (replicate 16 0)
     [0x8A972823, 0x2AC19961, 0x23646C41, 0x14E9121C,
     0xD2514751, 0xBE8D8158, 0x66803538, 0xA11FFD67,
     0xF2FDE558, 0x864DB2E0, 0x8CD484B9, 0x8FD88E24,
     0xC9268A2E, 0x4CFE3592, 0x68500520, 0x2CBF2472] =
     [0x7989D939, 0x2DFFDF16, 0xE7D415FE, 0xE9C69592,
     0x7BD702B2, 0x22681F37, 0x010FC028, 0x862C460A,
     0x782548ED, 0x8CA05DCB, 0xAD42C4DF, 0x0E23DFAF,
     0xEB3D1DB2, 0x99DBFBDB, 0x2C1AA7FD, 0x3F2B446F]"
  by code_simp

lemma empty32_round5:
  "ROUND 5 (replicate 16 0)
     [0x7989D939, 0x2DFFDF16, 0xE7D415FE, 0xE9C69592,
     0x7BD702B2, 0x22681F37, 0x010FC028, 0x862C460A,
     0x782548ED, 0x8CA05DCB, 0xAD42C4DF, 0x0E23DFAF,
     0xEB3D1DB2, 0x99DBFBDB, 0x2C1AA7FD, 0x3F2B446F] =
     [0x5130EC2E, 0x16928CA9, 0x9689D40E, 0x4597466B,
     0x89C78B5D, 0x4AA075CA, 0x9ACF75B0, 0x000EF0B2,
     0xC97B78AA, 0x473D12E1, 0xFE799EB9, 0x1B9D865A,
     0x508428CA, 0x56C120E0, 0x03F1A225, 0x84C7ADC4]"
  by code_simp

lemma empty32_round6:
  "ROUND 6 (replicate 16 0)
     [0x5130EC2E, 0x16928CA9, 0x9689D40E, 0x4597466B,
     0x89C78B5D, 0x4AA075CA, 0x9ACF75B0, 0x000EF0B2,
     0xC97B78AA, 0x473D12E1, 0xFE799EB9, 0x1B9D865A,
     0x508428CA, 0x56C120E0, 0x03F1A225, 0x84C7ADC4] =
     [0xBFAC61D3, 0xD8C79BD1, 0x56D0205F, 0xA3DE0C73,
     0x0530F848, 0x67D68CC6, 0x85781A31, 0x6F185A05,
     0x584C556F, 0x7DC7CFFA, 0x73FC4E42, 0x301FFE3B,
     0x589F1A98, 0x41C85926, 0xC468C062, 0x0D13919E]"
  by code_simp

lemma empty32_round7:
  "ROUND 7 (replicate 16 0)
     [0xBFAC61D3, 0xD8C79BD1, 0x56D0205F, 0xA3DE0C73,
     0x0530F848, 0x67D68CC6, 0x85781A31, 0x6F185A05,
     0x584C556F, 0x7DC7CFFA, 0x73FC4E42, 0x301FFE3B,
     0x589F1A98, 0x41C85926, 0xC468C062, 0x0D13919E] =
     [0x0E00FBF9, 0x6C547AC1, 0xC172A6A6, 0x0B22A211,
     0x5B1619DB, 0xFE663125, 0xDBBB1EF7, 0x32B1A75E,
     0x40701620, 0xEDD602EF, 0xE9103B18, 0x20C9A36C,
     0xE83AB25C, 0x039BAD24, 0x0DCD06D1, 0xA3F0D571]"
  by code_simp

lemma empty32_round8:
  "ROUND 8 (replicate 16 0)
     [0x0E00FBF9, 0x6C547AC1, 0xC172A6A6, 0x0B22A211,
     0x5B1619DB, 0xFE663125, 0xDBBB1EF7, 0x32B1A75E,
     0x40701620, 0xEDD602EF, 0xE9103B18, 0x20C9A36C,
     0xE83AB25C, 0x039BAD24, 0x0DCD06D1, 0xA3F0D571] =
     [0x64C8350C, 0x9F8A7310, 0xF887F04B, 0xDE967F08,
     0x24A44B8C, 0x50AB820A, 0x7F44F77C, 0xB9E0A8AE,
     0xBB18976C, 0x2C9D850F, 0x91EB4833, 0x5FE9A291,
     0x1DC38D43, 0x4801AEB7, 0xFB8CA9DA, 0xA72088BC]"
  by code_simp

lemma empty32_round9:
  "ROUND 9 (replicate 16 0)
     [0x64C8350C, 0x9F8A7310, 0xF887F04B, 0xDE967F08,
     0x24A44B8C, 0x50AB820A, 0x7F44F77C, 0xB9E0A8AE,
     0xBB18976C, 0x2C9D850F, 0x91EB4833, 0x5FE9A291,
     0x1DC38D43, 0x4801AEB7, 0xFB8CA9DA, 0xA72088BC] =
     [0xD413382A, 0xDAFC3AE3, 0x4BA85EE5, 0x8DCD5A04,
     0xF0FDF183, 0xA8835AF0, 0xE94C7C22, 0xC346A16F,
     0x8F61FF04, 0xF51B041F, 0xA7E7BC76, 0x54C89A7C,
     0xE945F6E3, 0x2D239350, 0x0BC28092, 0x6148BC68]"
  by code_simp

lemma empty32_rounds:
  "fold (\<lambda>r. ROUND r (replicate 16 0)) [0..<10]
     [0x6B08E647, 0xBB67AE85, 0x3C6EF372, 0xA54FF53A,
     0x510E527F, 0x9B05688C, 0x1F83D9AB, 0x5BE0CD19,
     0x6A09E667, 0xBB67AE85, 0x3C6EF372, 0xA54FF53A,
     0x510E527F, 0x9B05688C, 0xE07C2654, 0x5BE0CD19] =
     [0xD413382A, 0xDAFC3AE3, 0x4BA85EE5, 0x8DCD5A04,
     0xF0FDF183, 0xA8835AF0, 0xE94C7C22, 0xC346A16F,
     0x8F61FF04, 0xF51B041F, 0xA7E7BC76, 0x54C89A7C,
     0xE945F6E3, 0x2D239350, 0x0BC28092, 0x6148BC68]"
  by (simp only: upt10 fold_simps comp_apply id_apply
      empty32_round0 empty32_round1 empty32_round2 empty32_round3 empty32_round4 empty32_round5 empty32_round6 empty32_round7 empty32_round8 empty32_round9)

lemma empty32_chain:
  "h (blake2s_compress_block (blake2s_set_lastblock (blake2s_init 32)) (replicate 64 0) 0) =
     [0x307A2169, 0x94809079, 0xD02111E1, 0x7C4A3542,
     0x48B6551F, 0x1EA5A12C, 0xFD0D251B, 0xF9EED01E]"
proof -
  have "chain_update
     [0x6B08E647, 0xBB67AE85, 0x3C6EF372, 0xA54FF53A,
     0x510E527F, 0x9B05688C, 0x1F83D9AB, 0x5BE0CD19]
     [0xD413382A, 0xDAFC3AE3, 0x4BA85EE5, 0x8DCD5A04,
     0xF0FDF183, 0xA8835AF0, 0xE94C7C22, 0xC346A16F,
     0x8F61FF04, 0xF51B041F, 0xA7E7BC76, 0x54C89A7C,
     0xE945F6E3, 0x2D239350, 0x0BC28092, 0x6148BC68] =
     [0x307A2169, 0x94809079, 0xD02111E1, 0x7C4A3542,
     0x48B6551F, 0x1EA5A12C, 0xFD0D251B, 0xF9EED01E]"
    by code_simp
  then show ?thesis
    by (simp only: compress_block_steps zero_block_words empty32_start empty32_rounds)
qed

lemma empty32_digest:
  "hash_oneshot 32 [] 32 =
     Some [0x69, 0x21, 0x7A, 0x30, 0x79, 0x90, 0x80, 0x94,
          0xE1, 0x11, 0x21, 0xD0, 0x42, 0x35, 0x4A, 0x7C,
          0x1F, 0x55, 0xB6, 0x48, 0x2C, 0xA1, 0xA5, 0x1E,
          0x1B, 0x25, 0x0D, 0xFD, 0x1E, 0xD0, 0xEE, 0xF9]"
proof -
  have "take 32 (concat (map le32_bytes
     [0x307A2169, 0x94809079, 0xD02111E1, 0x7C4A3542,
     0x48B6551F, 0x1EA5A12C, 0xFD0D251B, 0xF9EED01E])) =
     [0x69, 0x21, 0x7A, 0x30, 0x79, 0x90, 0x80, 0x94,
     0xE1, 0x11, 0x21, 0xD0, 0x42, 0x35, 0x4A, 0x7C,
     0x1F, 0x55, 0xB6, 0x48, 0x2C, 0xA1, 0xA5, 0x1E,
     0x1B, 0x25, 0x0D, 0xFD, 0x1E, 0xD0, 0xEE, 0xF9]"
    by code_simp
  then show ?thesis
    using final_closed [of "blake2s_init 32" 32]
    by (simp add: hash_oneshot_def blake2s_update_def init_wf' empty32_chain)
qed

text \<open>
  C3 with the output length given to \<open>blake2s_init\<close> as well fails: the length is
  part of the parameter block. For the empty message, the digest of length 16 is not the
  first 16 bytes of the digest of length 32.
\<close>

theorem truncation_counterexample:
  "hash_oneshot 16 [] 16 \<noteq> map_option (take 16) (hash_oneshot 32 [] 32) \<and>
   hash_oneshot 16 [] 16 =
     Some [0x64, 0x55, 0x0D, 0x6F, 0xFE, 0x2C, 0x0A, 0x01,
           0xA1, 0x4A, 0xBA, 0x1E, 0xAD, 0xE0, 0x20, 0x0C] \<and>
   map_option (take 16) (hash_oneshot 32 [] 32) =
     Some [0x69, 0x21, 0x7A, 0x30, 0x79, 0x90, 0x80, 0x94,
           0xE1, 0x11, 0x21, 0xD0, 0x42, 0x35, 0x4A, 0x7C]"
  by (simp add: empty16_digest empty32_digest)

end
